theory Spec2Isabelle
  imports Main
begin

section \<open>Python values, errors and the host\<close>

text \<open>
  The values a template is made of and resolves to.  A \<open>dict\<close> is an association
  list in insertion order; a Python dict has distinct keys, and the keys of a template
  mapping are strings.  A float is carried around but never computed with.
\<close>

datatype pyfloat = Finite int int | Infinite bool | NaN

datatype pyval =
    PNone
  | PBool bool
  | PInt int
  | PFloat pyfloat
  | PStr string
  | PList "pyval list"
  | PTuple "pyval list"
  | PDict "(string \<times> pyval) list"

text \<open>
  Every \<open>raise\<close> and every failing \<open>assert\<close> of the source is a value.
  \<open>RecursionError\<close> is what the interpreter raises when the nesting of \<open>_resolve\<close>
  calls exceeds the recursion limit.
\<close>

datatype error =
    AssertionError
  | RefCycle string
  | InvalidRange
  | InvalidProduct
  | UnknownType pyval
  | InvalidEnv
  | EnvKeyMissing pyval
  | KeyError
  | IndexError
  | TypeError
  | ValueError
  | RecursionError

text \<open>
  What the program takes from the Python process and does not define itself: the builtin
  conversions \<open>int(s)\<close> and \<open>float(s)\<close> of a string (\<open>None\<close> is a \<open>ValueError\<close>), and
  \<open>os.environ\<close>.
\<close>

record host =
  int_of_str :: "string \<Rightarrow> int option"
  float_of_str :: "string \<Rightarrow> pyfloat option"
  os_environ :: "(string \<times> string) list"

text \<open>
  \<open>_State\<close>.  \<open>computed\<close> is read with \<open>map_of\<close> and a store puts the new entry in
  front, where it shadows an older entry of the same key; the list is therefore also
  the record of every store made into the cache.
\<close>

record state =
  toplevel :: pyval
  computed :: "(string \<times> pyval) list"
  resolving :: "string set"
  environment :: "(string \<times> string) list"

type_synonym result = "error + pyval \<times> state"
type_synonym resolver = "state \<Rightarrow> pyval \<Rightarrow> result"

section \<open>Type tests and builtins\<close>

fun isinstance_list :: "pyval \<Rightarrow> bool" where
  "isinstance_list (PList xs) = True"
| "isinstance_list v = False"

fun isinstance_tuple :: "pyval \<Rightarrow> bool" where
  "isinstance_tuple (PTuple xs) = True"
| "isinstance_tuple v = False"

text \<open>\<open>collections.abc.Iterable\<close>: strings and dicts are iterable as well.\<close>

fun isinstance_Iterable :: "pyval \<Rightarrow> bool" where
  "isinstance_Iterable (PStr s) = True"
| "isinstance_Iterable (PList xs) = True"
| "isinstance_Iterable (PTuple xs) = True"
| "isinstance_Iterable (PDict d) = True"
| "isinstance_Iterable v = False"

text \<open>What iterating a value yields: a string its characters, a dict its keys.\<close>

fun iter :: "pyval \<Rightarrow> pyval list" where
  "iter (PList xs) = xs"
| "iter (PTuple xs) = xs"
| "iter (PStr s) = map (\<lambda>c. PStr [c]) s"
| "iter (PDict d) = map (\<lambda>kv. PStr (fst kv)) d"
| "iter v = []"

fun check_type_all :: "pyval list \<Rightarrow> (pyval \<Rightarrow> bool) \<Rightarrow> bool" where
  "check_type_all [] ty = True"
| "check_type_all (item # items) ty = (if \<not> ty item then False else check_type_all items ty)"

definition is_list_like :: "pyval \<Rightarrow> bool" where
  "is_list_like item = (isinstance_list item \<or> isinstance_tuple item)"

text \<open>\<open>type(iterable)(...)\<close> for a list or a tuple: a sequence of the same kind.\<close>

fun constructor_of :: "pyval \<Rightarrow> pyval list \<Rightarrow> pyval" where
  "constructor_of (PTuple xs) ys = PTuple ys"
| "constructor_of v ys = PList ys"

fun hashable :: "pyval \<Rightarrow> bool" where
  "hashable (PList xs) = False"
| "hashable (PDict d) = False"
| "hashable (PTuple xs) = list_all hashable xs"
| "hashable v = True"

text \<open>
  \<open>itertools.product(*pools)\<close>, as the library documents it: the result starts as the
  one empty combination and every pool extends every combination by each of its
  elements.
\<close>

definition itertools_product :: "'a list list \<Rightarrow> 'a list list" where
  "itertools_product pools =
     foldl (\<lambda>result pool. concat (map (\<lambda>x. map (\<lambda>y. x @ [y]) pool) result)) [[]] pools"

text \<open>
  \<open>zip(*iterables)\<close>: nothing for no iterable; otherwise one tuple of the next elements
  after the other, until an iterable is exhausted.  \<open>nexts\<close> takes the next element of
  each iterator, if each has one.
\<close>

fun nexts :: "'a list list \<Rightarrow> ('a list \<times> 'a list list) option" where
  "nexts [] = Some ([], [])"
| "nexts ([] # its) = None"
| "nexts ((x # xs) # its) =
     (case nexts its of None \<Rightarrow> None | Some (hs, ts) \<Rightarrow> Some (x # hs, xs # ts))"

fun py_zip_loop :: "'a list \<Rightarrow> 'a list list \<Rightarrow> 'a list list" where
  "py_zip_loop [] its = []"
| "py_zip_loop (x # xs) its =
     (case nexts its of None \<Rightarrow> [] | Some (hs, ts) \<Rightarrow> (x # hs) # py_zip_loop xs ts)"

fun py_zip :: "'a list list \<Rightarrow> 'a list list" where
  "py_zip [] = []"
| "py_zip (it # its) = py_zip_loop it its"

text \<open>\<open>range(start, stop, step)\<close> for a step other than zero.\<close>

definition range_len :: "int \<Rightarrow> int \<Rightarrow> int \<Rightarrow> nat" where
  "range_len start stop step =
     (if 0 < step then (if start < stop then nat ((stop - start - 1) div step + 1) else 0)
      else (if stop < start then nat ((start - stop - 1) div (- step) + 1) else 0))"

definition py_range :: "int \<Rightarrow> int \<Rightarrow> int \<Rightarrow> pyval" where
  "py_range start stop step =
     PList (map (\<lambda>i. PInt (start + int i * step)) [0..<range_len start stop step])"

text \<open>An argument of \<open>range\<close> has to be an integer; a bool is one.\<close>

fun as_index :: "pyval \<Rightarrow> int option" where
  "as_index (PInt i) = Some i"
| "as_index (PBool b) = Some (if b then 1 else 0)"
| "as_index v = None"

section \<open>The operators\<close>

text \<open>
  The handlers call \<open>_resolve\<close> back; here they take it as the argument \<open>R\<close>, and
  \<open>resolve\<close> below passes itself.  The source's names lose their leading underscore.
\<close>

text \<open>\<open>state.toplevel[key]\<close> for a string key.\<close>

fun subscript :: "pyval \<Rightarrow> string \<Rightarrow> error + pyval" where
  "subscript (PDict d) key = (case map_of d key of None \<Rightarrow> Inl KeyError | Some v \<Rightarrow> Inr v)"
| "subscript v key = Inl TypeError"

text \<open>\<open>value is None\<close> for the result of \<open>state.computed.get(key)\<close>.\<close>

fun is_None :: "pyval option \<Rightarrow> bool" where
  "is_None None = True"
| "is_None (Some PNone) = True"
| "is_None (Some v) = False"

definition resolve_ref :: "resolver \<Rightarrow> state \<Rightarrow> pyval \<Rightarrow> result" where
  "resolve_ref R s key =
     (case key of
        PStr k \<Rightarrow>
          (let value = map_of (computed s) k in
           if is_None value then
             if k \<in> resolving s then Inl (RefCycle k)
             else
               (let s1 = s\<lparr>resolving := insert k (resolving s)\<rparr> in
                case subscript (toplevel s1) k of
                  Inl e \<Rightarrow> Inl e
                | Inr t \<Rightarrow>
                   (case R s1 t of
                      Inl e \<Rightarrow> Inl e
                    | Inr (value, s2) \<Rightarrow>
                        if k \<notin> resolving s2 then Inl KeyError
                        else Inr (value, s2\<lparr>resolving := resolving s2 - {k},
                                            computed := (k, value) # computed s2\<rparr>)))
           else Inr (the value, s))
      | _ \<Rightarrow> Inl AssertionError)"

definition resolve_range :: "state \<Rightarrow> pyval \<Rightarrow> result" where
  "resolve_range s args =
     (case as_index args of
        Some n \<Rightarrow> Inr (py_range 0 n 1, s)
      | None \<Rightarrow>
          if is_list_like args \<and> 2 \<le> length (iter args) \<and> length (iter args) \<le> 3 then
            (if \<not> list_all (\<lambda>a. as_index a \<noteq> None) (iter args) then Inl TypeError
             else
               (let xs = map (\<lambda>a. the (as_index a)) (iter args);
                    step = (if length xs = 3 then xs ! 2 else 1)
                in if step = 0 then Inl ValueError
                   else Inr (py_range (xs ! 0) (xs ! 1) step, s)))
          else Inl InvalidRange)"

text \<open>
  The comprehension \<open>_resolve(state, item) for item in iterable\<close>: the items in order,
  each in the state the one before has left; the first failure ends it.
\<close>

primrec resolve_each :: "resolver \<Rightarrow> state \<Rightarrow> pyval list \<Rightarrow> error + pyval list \<times> state" where
  "resolve_each R s [] = Inr ([], s)"
| "resolve_each R s (item # items) =
     (case R s item of
        Inl e \<Rightarrow> Inl e
      | Inr (v, s1) \<Rightarrow>
         (case resolve_each R s1 items of
            Inl e \<Rightarrow> Inl e
          | Inr (vs, s2) \<Rightarrow> Inr (v # vs, s2)))"

definition map_list_like :: "resolver \<Rightarrow> state \<Rightarrow> pyval \<Rightarrow> result" where
  "map_list_like R s iterable =
     (if \<not> is_list_like iterable then Inl AssertionError
      else
        (case resolve_each R s (iter iterable) of
           Inl e \<Rightarrow> Inl e
         | Inr (vs, s1) \<Rightarrow> Inr (constructor_of iterable vs, s1)))"

definition resolve_concat :: "resolver \<Rightarrow> state \<Rightarrow> pyval \<Rightarrow> result" where
  "resolve_concat R s args =
     (if \<not> isinstance_Iterable args then Inl AssertionError
      else
        (case map_list_like R s args of
           Inl e \<Rightarrow> Inl e
         | Inr (items, s1) \<Rightarrow>
             if \<not> check_type_all (iter items) isinstance_Iterable then Inl AssertionError
             else Inr (constructor_of items (concat (map iter (iter items))), s1)))"

definition resolve_product :: "resolver \<Rightarrow> state \<Rightarrow> pyval \<Rightarrow> result" where
  "resolve_product R s args0 =
     (case R s args0 of
        Inl e \<Rightarrow> Inl e
      | Inr (args, s1) \<Rightarrow>
          if is_list_like args then
            (case map_list_like R s1 args of
               Inl e \<Rightarrow> Inl e
             | Inr (args2, s2) \<Rightarrow>
                 if \<not> (check_type_all (iter args2) isinstance_list
                        \<or> check_type_all (iter args2) isinstance_tuple)
                 then Inl AssertionError
                 else Inr (PList (map PTuple (itertools_product (map iter (iter args2)))), s2))
          else
            (case args of
               PDict d \<Rightarrow>
                 (case map_list_like R s1 (PTuple (map snd d)) of
                    Inl e \<Rightarrow> Inl e
                  | Inr (values, s2) \<Rightarrow>
                      if \<not> check_type_all (iter values) isinstance_Iterable
                      then Inl AssertionError
                      else Inr (PList (map (\<lambda>items. PDict (zip (map fst d) items))
                                         (itertools_product (map iter (iter values)))), s2))
             | _ \<Rightarrow> Inl InvalidProduct))"

definition resolve_zip :: "resolver \<Rightarrow> state \<Rightarrow> pyval \<Rightarrow> result" where
  "resolve_zip R s args =
     (if \<not> is_list_like args then Inl AssertionError
      else
        (case resolve_each R s (iter args) of
           Inl e \<Rightarrow> Inl e
         | Inr (items, s1) \<Rightarrow>
             if \<not> (check_type_all items isinstance_list \<or> check_type_all items isinstance_tuple)
             then Inl AssertionError
             else Inr (PList (map PTuple (py_zip (map iter items))), s1)))"

definition ENV_CONSTRUCTORS :: "host \<Rightarrow> (string \<times> (string \<Rightarrow> error + pyval)) list" where
  "ENV_CONSTRUCTORS H =
     [(''str'', \<lambda>v. Inr (PStr v)),
      (''int'', \<lambda>v. case int_of_str H v of None \<Rightarrow> Inl ValueError | Some i \<Rightarrow> Inr (PInt i)),
      (''float'', \<lambda>v. case float_of_str H v of None \<Rightarrow> Inl ValueError | Some f \<Rightarrow> Inr (PFloat f)),
      (''bool'', \<lambda>v. Inr (PBool (v \<noteq> [])))]"

text \<open>
  \<open>constructor in ENV_CONSTRUCTORS\<close> and \<open>ENV_CONSTRUCTORS[constructor]\<close>: only a
  string can be one of the keys; a list or a dict cannot be hashed.
\<close>

fun lookup_constructor :: "host \<Rightarrow> pyval \<Rightarrow> error + (string \<Rightarrow> error + pyval)" where
  "lookup_constructor H (PStr c) =
     (case map_of (ENV_CONSTRUCTORS H) c of
        None \<Rightarrow> Inl (UnknownType (PStr c))
      | Some f \<Rightarrow> Inr f)"
| "lookup_constructor H c = (if hashable c then Inl (UnknownType c) else Inl TypeError)"

text \<open>\<open>state.environment.get(key)\<close>: the keys of the environment are strings.\<close>

fun environment_get :: "(string \<times> string) list \<Rightarrow> pyval \<Rightarrow> error + string option" where
  "environment_get env (PStr k) = Inr (map_of env k)"
| "environment_get env key = (if hashable key then Inr None else Inl TypeError)"

definition resolve_env :: "host \<Rightarrow> state \<Rightarrow> pyval \<Rightarrow> result" where
  "resolve_env H s args =
     (case
        (case args of
           PStr name \<Rightarrow> Inr (PStr name, PNone, PStr ''str'')
         | PDict d \<Rightarrow>
             (case map_of d ''name'' of
                None \<Rightarrow> Inl KeyError
              | Some key \<Rightarrow>
                  (let default_value = (case map_of d ''default'' of None \<Rightarrow> PNone | Some v \<Rightarrow> v);
                       constructor = (case map_of d ''type'' of None \<Rightarrow> PStr ''str'' | Some c \<Rightarrow> c)
                   in case lookup_constructor H constructor of
                        Inl e \<Rightarrow> Inl e
                      | Inr f \<Rightarrow> Inr (key, default_value, constructor)))
         | _ \<Rightarrow> Inl InvalidEnv)
      of
        Inl e \<Rightarrow> Inl e
      | Inr (key, default_value, constructor) \<Rightarrow>
          (case environment_get (environment s) key of
             Inl e \<Rightarrow> Inl e
           | Inr None \<Rightarrow>
               if default_value \<noteq> PNone then Inr (default_value, s)
               else Inl (EnvKeyMissing key)
           | Inr (Some value) \<Rightarrow>
               (case lookup_constructor H constructor of
                  Inl e \<Rightarrow> Inl e
                | Inr f \<Rightarrow> (case f value of Inl e \<Rightarrow> Inl e | Inr v \<Rightarrow> Inr (v, s)))))"

section \<open>The tree walker\<close>

definition OPS_SWITCH :: "host \<Rightarrow> resolver \<Rightarrow> (string \<times> resolver) list" where
  "OPS_SWITCH H R =
     [(''$ref'', resolve_ref R),
      (''$range'', resolve_range),
      (''$+'', resolve_concat R),
      (''$product'', resolve_product R),
      (''$zip'', resolve_zip R),
      (''$env'', resolve_env H)]"

text \<open>
  The handler of a value, if it is a dict of one entry whose key is an operator, with
  the entry's value.
\<close>

fun operator_of :: "host \<Rightarrow> resolver \<Rightarrow> pyval \<Rightarrow> (resolver \<times> pyval) option" where
  "operator_of H R (PDict [(key, arg)]) =
     (case map_of (OPS_SWITCH H R) key of None \<Rightarrow> None | Some fn \<Rightarrow> Some (fn, arg))"
| "operator_of H R v = None"

text \<open>
  \<open>_resolve\<close>.  The first argument after the host bounds how deep the calls of
  \<open>_resolve\<close> may nest, as the interpreter's recursion limit does.
\<close>

primrec resolve :: "host \<Rightarrow> nat \<Rightarrow> state \<Rightarrow> pyval \<Rightarrow> result" where
  "resolve H 0 = (\<lambda>s value. Inl RecursionError)"
| "resolve H (Suc n) = (\<lambda>s value.
     (case operator_of H (resolve H n) value of
        Some (fn, arg) \<Rightarrow> fn s arg
      | None \<Rightarrow>
         (if is_list_like value then
            (case resolve_each (resolve H n) s (iter value) of
               Inl e \<Rightarrow> Inl e
             | Inr (vs, s1) \<Rightarrow> Inr (PList vs, s1))
          else
            (case value of
               PDict d \<Rightarrow>
                 (case resolve_each (resolve H n) s (map snd d) of
                    Inl e \<Rightarrow> Inl e
                  | Inr (vs, s1) \<Rightarrow> Inr (PDict (zip (map fst d) vs), s1))
             | _ \<Rightarrow> Inr (value, s)))))"

definition build_template ::
  "host \<Rightarrow> nat \<Rightarrow> pyval \<Rightarrow> (string \<times> string) list option \<Rightarrow> error + pyval" where
  "build_template H fuel template environment0 =
     (let env = (case environment0 of
                   None \<Rightarrow> os_environ H
                 | Some e \<Rightarrow> if e \<noteq> [] then e else os_environ H);
          state = \<lparr>toplevel = template, computed = [], resolving = {}, environment = env\<rparr>
      in case resolve H fuel state template of Inl e \<Rightarrow> Inl e | Inr (v, s) \<Rightarrow> Inr v)"

section \<open>Merging templates\<close>

text \<open>
  \<open>merge_templates\<close> changes a dict that its caller holds, so the templates are
  objects in a store here: \<open>templates\<close> is the list of their addresses.  Only the
  top level of a template is written to; what the keys are bound to is shared, never
  changed, and stays a value.
\<close>

type_synonym heap = "nat \<Rightarrow> (string \<times> pyval) list"

text \<open>\<open>d[k] = v\<close>: a key the dict has keeps its place, a new key goes to the end.\<close>

fun dict_setitem :: "string \<Rightarrow> pyval \<Rightarrow> (string \<times> pyval) list \<Rightarrow> (string \<times> pyval) list" where
  "dict_setitem k v [] = [(k, v)]"
| "dict_setitem k v (item # items) =
     (if fst item = k then (k, v) # items else item # dict_setitem k v items)"

text \<open>\<open>d.update(other)\<close> for a dict \<open>other\<close>: its items are stored into \<open>d\<close> in order.\<close>

definition dict_update :: "(string \<times> pyval) list \<Rightarrow> (string \<times> pyval) list \<Rightarrow> (string \<times> pyval) list" where
  "dict_update d other = foldl (\<lambda>d' item. dict_setitem (fst item) (snd item) d') d other"

text \<open>
  The store after the call comes with the result, also when the build fails: the
  updates have been made by then.
\<close>

definition merge_templates ::
  "host \<Rightarrow> nat \<Rightarrow> heap \<Rightarrow> nat list \<Rightarrow> (string \<times> string) list option \<Rightarrow> heap \<times> (error + pyval)" where
  "merge_templates H fuel heap templates environment0 =
     (case templates of
        [] \<Rightarrow> (heap, Inl IndexError)
      | base_template # rest \<Rightarrow>
          (let heap' = foldl (\<lambda>h template.
                                h(base_template := dict_update (h base_template) (h template)))
                             heap rest
           in (heap', build_template H fuel (PDict (heap' base_template)) environment0)))"

section \<open>A host for the examples\<close>

text \<open>
  The theorems below hold for every host.  The examples run on this one, whose \<open>int\<close>
  reads an unsigned decimal numeral and whose \<open>float\<close> reads the same numerals.
\<close>

definition digit_value :: "char \<Rightarrow> int option" where
  "digit_value c =
     map_of [(CHR ''0'', 0), (CHR ''1'', 1), (CHR ''2'', 2), (CHR ''3'', 3), (CHR ''4'', 4),
             (CHR ''5'', 5), (CHR ''6'', 6), (CHR ''7'', 7), (CHR ''8'', 8), (CHR ''9'', 9)] c"

fun decimal_value :: "int \<Rightarrow> string \<Rightarrow> int option" where
  "decimal_value acc [] = Some acc"
| "decimal_value acc (c # cs) =
     (case digit_value c of None \<Rightarrow> None | Some v \<Rightarrow> decimal_value (10 * acc + v) cs)"

definition example_host :: host where
  "example_host =
     \<lparr>int_of_str = (\<lambda>s. if s = [] then None else decimal_value 0 s),
      float_of_str = (\<lambda>s. if s = [] then None
                           else map_option (\<lambda>i. Finite i 0) (decimal_value 0 s)),
      os_environ = [(''HOME'', ''/root'')]\<rparr>"

definition example_state :: "pyval \<Rightarrow> (string \<times> string) list \<Rightarrow> state" where
  "example_state template env =
     \<lparr>toplevel = template, computed = [], resolving = {}, environment = env\<rparr>"

text \<open>Two templates in a store, for the examples.\<close>

definition example_heap :: heap where
  "example_heap = (\<lambda>a. [])(0 := [(''x'', PInt 1), (''y'', PInt 2)],
                           1 := [(''y'', PInt 3), (''z'', PInt 4)])"

section \<open>Predicates for the state\<close>

text \<open>
  The stores made into the cache for one key, newest first: one for every time the
  resolution of the key's toplevel entry has been carried out to its end by \<open>$ref\<close>.
\<close>

definition stores :: "string \<Rightarrow> (string \<times> pyval) list \<Rightarrow> pyval list" where
  "stores k c = map snd (filter (\<lambda>entry. fst entry = k) c)"

text \<open>
  Every store but the newest one for its key has stored \<open>None\<close>: an entry is stored over
  only when it holds \<open>None\<close>.
\<close>

fun stored_once :: "(string \<times> pyval) list \<Rightarrow> bool" where
  "stored_once [] = True"
| "stored_once (entry # c) =
     ((\<forall>older \<in> set c. fst older = fst entry \<longrightarrow> snd older = PNone) \<and> stored_once c)"

text \<open>
  What a call of the walker that returns may have done to the state: the toplevel, the
  environment and the resolving set are as before, and the cache has gained entries in
  front, none for a key that was being resolved.
\<close>

definition extends :: "state \<Rightarrow> state \<Rightarrow> bool" where
  "extends s s' \<longleftrightarrow>
     resolving s' = resolving s \<and> toplevel s' = toplevel s \<and> environment s' = environment s \<and>
     (\<exists>new. computed s' = new @ computed s \<and> (\<forall>entry \<in> set new. fst entry \<notin> resolving s)) \<and>
     (stored_once (computed s) \<longrightarrow> stored_once (computed s'))"

text \<open>
  A chain of references in the toplevel mapping \<open>d\<close>: every key of the list is bound to
  the node \<open>{$ref: next key}\<close>, and the last key to \<open>{$ref: target}\<close>.
\<close>

fun ref_chain :: "(string \<times> pyval) list \<Rightarrow> string list \<Rightarrow> string \<Rightarrow> bool" where
  "ref_chain d [] target = False"
| "ref_chain d [k] target = (map_of d k = Some (PDict [(''$ref'', PStr target)]))"
| "ref_chain d (k # k' # ks) target =
     (map_of d k = Some (PDict [(''$ref'', PStr k')]) \<and> ref_chain d (k' # ks) target)"

section \<open>Templates without operators and tuples\<close>

text \<open>The keys of \<open>OPS_SWITCH\<close>, and the nodes the walker hands to an operator.\<close>

definition operator_key :: "string \<Rightarrow> bool" where
  "operator_key key \<longleftrightarrow> key \<in> set [''$ref'', ''$range'', ''$+'', ''$product'', ''$zip'', ''$env'']"

fun operator_node :: "pyval \<Rightarrow> bool" where
  "operator_node (PDict [(key, arg)]) = operator_key key"
| "operator_node v = False"

text \<open>
  A value in which no node is an operator node and no node is a tuple; and the depth to
  which the nodes of a value nest.
\<close>

fun plain :: "pyval \<Rightarrow> bool" where
  "plain (PList xs) = list_all plain xs"
| "plain (PTuple xs) = False"
| "plain (PDict d) = (\<not> operator_node (PDict d) \<and> list_all plain (map snd d))"
| "plain v = True"

fun depth :: "pyval \<Rightarrow> nat" where
  "depth (PList xs) = Suc (fold max (map depth xs) 0)"
| "depth (PTuple xs) = Suc (fold max (map depth xs) 0)"
| "depth (PDict d) = Suc (fold max (map depth (map snd d)) 0)"
| "depth v = 0"

section \<open>The calls of the walker\<close>

text \<open>
  A call of \<open>_resolve\<close>: how deep the calls may still nest, the state the call is made
  in, and the value it is made on.
\<close>

type_synonym call = "nat \<times> state \<times> pyval"

text \<open>
  The calls of \<open>_resolve\<close> that each handler makes, with the state each is made in, in
  the order in which they are made.  A comprehension calls it on every item in turn, up
  to the first item that fails.
\<close>

primrec each_calls :: "resolver \<Rightarrow> state \<Rightarrow> pyval list \<Rightarrow> (state \<times> pyval) list" where
  "each_calls R s [] = []"
| "each_calls R s (item # items) =
     (s, item) # (case R s item of Inl e \<Rightarrow> [] | Inr (v, s1) \<Rightarrow> each_calls R s1 items)"

text \<open>
  \<open>_resolve_ref\<close> calls it once, on the toplevel entry of the key (line 28), when the
  cache has no value other than \<open>None\<close> for the key and the key is not being resolved;
  otherwise it makes no call.
\<close>

definition ref_calls :: "resolver \<Rightarrow> state \<Rightarrow> pyval \<Rightarrow> (state \<times> pyval) list" where
  "ref_calls R s key =
     (case key of
        PStr k \<Rightarrow>
          if is_None (map_of (computed s) k) \<and> k \<notin> resolving s then
            (let s1 = s\<lparr>resolving := insert k (resolving s)\<rparr> in
             case subscript (toplevel s1) k of Inl e \<Rightarrow> [] | Inr t \<Rightarrow> [(s1, t)])
          else []
      | _ \<Rightarrow> [])"

definition map_list_like_calls :: "resolver \<Rightarrow> state \<Rightarrow> pyval \<Rightarrow> (state \<times> pyval) list" where
  "map_list_like_calls R s iterable =
     (if \<not> is_list_like iterable then [] else each_calls R s (iter iterable))"

definition concat_calls :: "resolver \<Rightarrow> state \<Rightarrow> pyval \<Rightarrow> (state \<times> pyval) list" where
  "concat_calls R s args =
     (if \<not> isinstance_Iterable args then [] else map_list_like_calls R s args)"

definition product_calls :: "resolver \<Rightarrow> state \<Rightarrow> pyval \<Rightarrow> (state \<times> pyval) list" where
  "product_calls R s args0 =
     (s, args0) #
     (case R s args0 of
        Inl e \<Rightarrow> []
      | Inr (args, s1) \<Rightarrow>
          if is_list_like args then map_list_like_calls R s1 args
          else (case args of
                  PDict d \<Rightarrow> map_list_like_calls R s1 (PTuple (map snd d))
                | _ \<Rightarrow> []))"

definition zip_calls :: "resolver \<Rightarrow> state \<Rightarrow> pyval \<Rightarrow> (state \<times> pyval) list" where
  "zip_calls R s args = (if \<not> is_list_like args then [] else each_calls R s (iter args))"

text \<open>\<open>_resolve_range\<close> and \<open>_resolve_env\<close> make no call.\<close>

definition OPS_CALLS ::
  "resolver \<Rightarrow> (string \<times> (state \<Rightarrow> pyval \<Rightarrow> (state \<times> pyval) list)) list" where
  "OPS_CALLS R =
     [(''$ref'', ref_calls R),
      (''$range'', \<lambda>s args. []),
      (''$+'', concat_calls R),
      (''$product'', product_calls R),
      (''$zip'', zip_calls R),
      (''$env'', \<lambda>s args. [])]"

fun operator_calls ::
  "resolver \<Rightarrow> pyval \<Rightarrow> ((state \<Rightarrow> pyval \<Rightarrow> (state \<times> pyval) list) \<times> pyval) option" where
  "operator_calls R (PDict [(key, arg)]) =
     (case map_of (OPS_CALLS R) key of None \<Rightarrow> None | Some fn \<Rightarrow> Some (fn, arg))"
| "operator_calls R v = None"

definition walker_calls :: "resolver \<Rightarrow> state \<Rightarrow> pyval \<Rightarrow> (state \<times> pyval) list" where
  "walker_calls R s value =
     (case operator_calls R value of
        Some (fn, arg) \<Rightarrow> fn s arg
      | None \<Rightarrow>
          if is_list_like value then each_calls R s (iter value)
          else (case value of PDict d \<Rightarrow> each_calls R s (map snd d) | _ \<Rightarrow> []))"

text \<open>The calls that one call makes itself; a call that may not nest makes none.\<close>

fun subcalls :: "host \<Rightarrow> call \<Rightarrow> call list" where
  "subcalls H (0, s, value) = []"
| "subcalls H (Suc n, s, value) =
     map (\<lambda>c. (n, fst c, snd c)) (walker_calls (resolve H n) s value)"

definition state_of :: "call \<Rightarrow> state" where
  "state_of c = fst (snd c)"

text \<open>
  A call stack, outermost call first: each call is one of those made by the call before
  it.
\<close>

fun stack :: "host \<Rightarrow> call list \<Rightarrow> bool" where
  "stack H [] = False"
| "stack H [c] = True"
| "stack H (c # c' # cs) = (c' \<in> set (subcalls H c) \<and> stack H (c' # cs))"

text \<open>The key of a call on a reference \<open>{"$ref": k}\<close>.\<close>

fun ref_key :: "call \<Rightarrow> string option" where
  "ref_key (n, s, PDict [(key, PStr k)]) = (if key = ''$ref'' then Some k else None)"
| "ref_key c = None"

text \<open>The state in which \<open>build_template\<close> calls the walker.\<close>

definition initial_state :: "host \<Rightarrow> pyval \<Rightarrow> (string \<times> string) list option \<Rightarrow> state" where
  "initial_state H template environment0 =
     \<lparr>toplevel = template, computed = [], resolving = {},
      environment = (case environment0 of
                       None \<Rightarrow> os_environ H
                     | Some e \<Rightarrow> if e \<noteq> [] then e else os_environ H)\<rparr>"

text \<open>
  All calls that a call gives rise to, itself included, in the order in which they
  begin.
\<close>

primrec calls_upto :: "nat \<Rightarrow> host \<Rightarrow> call \<Rightarrow> call list" where
  "calls_upto 0 H c = [c]"
| "calls_upto (Suc m) H c = c # concat (map (calls_upto m H) (subcalls H c))"

definition calls :: "host \<Rightarrow> call \<Rightarrow> call list" where
  "calls H c = calls_upto (fst c) H c"

section \<open>Templates for the examples of cycles and of the cache\<close>

text \<open>The template of the repository's test \<open>test_config_ref_cycle\<close>.\<close>

definition cycle_template :: pyval where
  "cycle_template =
     PDict [(''a'', PList [PDict [(''$ref'', PStr ''b'')], PDict [(''$ref'', PStr ''c'')]]),
            (''b'', PDict [(''$ref'', PStr ''a'')]),
            (''c'', PList [PStr ''hello'', PStr ''world''])]"

text \<open>A key that refers to itself, and a cycle that passes through \<open>$+\<close>.\<close>

definition self_cycle_template :: pyval where
  "self_cycle_template = PDict [(''a'', PDict [(''$ref'', PStr ''a'')])]"

definition concat_cycle_template :: pyval where
  "concat_cycle_template =
     PDict [(''x'', PInt 1),
            (''a'', PDict [(''$+'', PList [PList [PInt 0], PDict [(''$ref'', PStr ''b'')]])]),
            (''b'', PDict [(''$ref'', PStr ''a'')])]"

text \<open>
  The call stacks on which these templates meet their cycle; only the resolving set
  changes along them.
\<close>

definition cycle_state :: "pyval \<Rightarrow> string set \<Rightarrow> state" where
  "cycle_state template ks = (initial_state example_host template None)\<lparr>resolving := ks\<rparr>"

definition cycle_stack :: "call list" where
  "cycle_stack =
     [(6, cycle_state cycle_template {}, cycle_template),
      (5, cycle_state cycle_template {},
          PList [PDict [(''$ref'', PStr ''b'')], PDict [(''$ref'', PStr ''c'')]]),
      (4, cycle_state cycle_template {}, PDict [(''$ref'', PStr ''b'')]),
      (3, cycle_state cycle_template {''b''}, PDict [(''$ref'', PStr ''a'')]),
      (2, cycle_state cycle_template {''a'', ''b''},
          PList [PDict [(''$ref'', PStr ''b'')], PDict [(''$ref'', PStr ''c'')]]),
      (Suc 0, cycle_state cycle_template {''a'', ''b''}, PDict [(''$ref'', PStr ''b'')])]"

definition self_cycle_stack :: "call list" where
  "self_cycle_stack =
     [(3, cycle_state self_cycle_template {}, self_cycle_template),
      (2, cycle_state self_cycle_template {}, PDict [(''$ref'', PStr ''a'')]),
      (Suc 0, cycle_state self_cycle_template {''a''}, PDict [(''$ref'', PStr ''a'')])]"

definition concat_cycle_stack :: "call list" where
  "concat_cycle_stack =
     [(7, cycle_state concat_cycle_template {}, concat_cycle_template),
      (6, cycle_state concat_cycle_template {},
          PDict [(''$+'', PList [PList [PInt 0], PDict [(''$ref'', PStr ''b'')]])]),
      (5, cycle_state concat_cycle_template {}, PDict [(''$ref'', PStr ''b'')]),
      (4, cycle_state concat_cycle_template {''b''}, PDict [(''$ref'', PStr ''a'')]),
      (3, cycle_state concat_cycle_template {''a'', ''b''},
          PDict [(''$+'', PList [PList [PInt 0], PDict [(''$ref'', PStr ''b'')]])]),
      (Suc 1, cycle_state concat_cycle_template {''a'', ''b''}, PDict [(''$ref'', PStr ''b'')])]"

text \<open>The template \<open>{a: [{$ref: b}, {$ref: b}], b: {$ref: c}, c: 5}\<close>.\<close>

definition memo_template :: pyval where
  "memo_template =
     PDict [(''a'', PList [PDict [(''$ref'', PStr ''b'')], PDict [(''$ref'', PStr ''b'')]]),
            (''b'', PDict [(''$ref'', PStr ''c'')]),
            (''c'', PInt 5)]"

section \<open>Unfolding the walker\<close>

lemma resolve_ref_operator:
  "resolve H (Suc n) s (PDict [(''$ref'', arg)]) = resolve_ref (resolve H n) s arg"
  by (simp add: OPS_SWITCH_def)

lemma resolve_range_operator:
  "resolve H (Suc n) s (PDict [(''$range'', arg)]) = resolve_range s arg"
  by (simp add: OPS_SWITCH_def)

lemma resolve_concat_operator:
  "resolve H (Suc n) s (PDict [(''$+'', arg)]) = resolve_concat (resolve H n) s arg"
  by (simp add: OPS_SWITCH_def)

lemma resolve_product_operator:
  "resolve H (Suc n) s (PDict [(''$product'', arg)]) = resolve_product (resolve H n) s arg"
  by (simp add: OPS_SWITCH_def)

lemma resolve_zip_operator:
  "resolve H (Suc n) s (PDict [(''$zip'', arg)]) = resolve_zip (resolve H n) s arg"
  by (simp add: OPS_SWITCH_def)

lemma resolve_env_operator:
  "resolve H (Suc n) s (PDict [(''$env'', arg)]) = resolve_env H s arg"
  by (simp add: OPS_SWITCH_def)

lemmas resolve_operator =
  resolve_ref_operator resolve_range_operator resolve_concat_operator
  resolve_product_operator resolve_zip_operator resolve_env_operator

section \<open>The environment operator\<close>

text \<open>
  C7.  \<open>$env\<close> with a mapping argument whose \<open>name\<close> is a string and whose \<open>type\<close>
  (\<open>str\<close> when there is none) is the string \<open>c\<close>.  If \<open>c\<close> is not one of \<open>str\<close>,
  \<open>int\<close>, \<open>float\<close> and \<open>bool\<close>, the operator fails with the unknown-type error
  whatever the environment holds.  Otherwise: a name absent from the environment gives
  the default, as it is, when there is a default other than \<open>None\<close>, and the key-missing
  error when there is not; a name present in the environment, with the empty string or
  any other value \<open>raw\<close>, gives the conversion of \<open>raw\<close>, and the default plays no
  part: \<open>raw\<close> itself for \<open>str\<close>, the host's \<open>int(raw)\<close> or \<open>float(raw)\<close> (a
  \<open>ValueError\<close> where the host has none) for \<open>int\<close> and \<open>float\<close>, and for \<open>bool\<close>
  whether \<open>raw\<close> is not the empty string.  With a bare string for argument the
  constructor is \<open>str\<close> and there is no default.
\<close>

theorem env_lookup_and_fallback:
  assumes "map_of d ''name'' = Some (PStr name)"
    and "default_value = (case map_of d ''default'' of None \<Rightarrow> PNone | Some v \<Rightarrow> v)"
    and "(case map_of d ''type'' of None \<Rightarrow> PStr ''str'' | Some t \<Rightarrow> t) = PStr c"
  shows "(c \<notin> {''str'', ''int'', ''float'', ''bool''} \<longrightarrow>
            resolve_env H s (PDict d) = Inl (UnknownType (PStr c))) \<and>
         (c \<in> {''str'', ''int'', ''float'', ''bool''} \<and> map_of (environment s) name = None \<and>
          default_value \<noteq> PNone \<longrightarrow>
            resolve_env H s (PDict d) = Inr (default_value, s)) \<and>
         (c \<in> {''str'', ''int'', ''float'', ''bool''} \<and> map_of (environment s) name = None \<and>
          default_value = PNone \<longrightarrow>
            resolve_env H s (PDict d) = Inl (EnvKeyMissing (PStr name))) \<and>
         (c = ''str'' \<and> map_of (environment s) name = Some raw \<longrightarrow>
            resolve_env H s (PDict d) = Inr (PStr raw, s)) \<and>
         (c = ''int'' \<and> map_of (environment s) name = Some raw \<longrightarrow>
            resolve_env H s (PDict d) =
              (case int_of_str H raw of None \<Rightarrow> Inl ValueError | Some i \<Rightarrow> Inr (PInt i, s))) \<and>
         (c = ''float'' \<and> map_of (environment s) name = Some raw \<longrightarrow>
            resolve_env H s (PDict d) =
              (case float_of_str H raw of None \<Rightarrow> Inl ValueError | Some x \<Rightarrow> Inr (PFloat x, s))) \<and>
         (c = ''bool'' \<and> map_of (environment s) name = Some raw \<longrightarrow>
            resolve_env H s (PDict d) = Inr (PBool (raw \<noteq> []), s)) \<and>
         resolve_env H s (PStr name) =
           (case map_of (environment s) name of
              None \<Rightarrow> Inl (EnvKeyMissing (PStr name))
            | Some raw \<Rightarrow> Inr (PStr raw, s))"
  using assms
  by (auto simp: resolve_env_def ENV_CONSTRUCTORS_def split: option.splits)

theorem env_lookup_and_fallback_witness:
  "resolve_env example_host (example_state PNone [(''FOO'', ''123''), (''EMPTY'', []), (''ZERO'', ''0'')])
     (PDict [(''name'', PStr ''FOO''), (''default'', PInt 2), (''type'', PStr ''int'')])
     = Inr (PInt 123, example_state PNone [(''FOO'', ''123''), (''EMPTY'', []), (''ZERO'', ''0'')]) \<and>
   resolve_env example_host (example_state PNone [(''FOO'', ''123''), (''EMPTY'', []), (''ZERO'', ''0'')])
     (PDict [(''name'', PStr ''FOO''), (''type'', PStr ''float'')])
     = Inr (PFloat (Finite 123 0),
            example_state PNone [(''FOO'', ''123''), (''EMPTY'', []), (''ZERO'', ''0'')]) \<and>
   resolve_env example_host (example_state PNone [(''FOO'', ''123''), (''EMPTY'', []), (''ZERO'', ''0'')])
     (PDict [(''name'', PStr ''EMPTY''), (''default'', PInt 2), (''type'', PStr ''bool'')])
     = Inr (PBool False, example_state PNone [(''FOO'', ''123''), (''EMPTY'', []), (''ZERO'', ''0'')]) \<and>
   resolve_env example_host (example_state PNone [(''FOO'', ''123''), (''EMPTY'', []), (''ZERO'', ''0'')])
     (PDict [(''name'', PStr ''ZERO''), (''default'', PInt 2), (''type'', PStr ''bool'')])
     = Inr (PBool True, example_state PNone [(''FOO'', ''123''), (''EMPTY'', []), (''ZERO'', ''0'')]) \<and>
   resolve_env example_host (example_state PNone [(''FOO'', ''123''), (''EMPTY'', []), (''ZERO'', ''0'')])
     (PDict [(''name'', PStr ''EMPTY''), (''default'', PInt 2)])
     = Inr (PStr [], example_state PNone [(''FOO'', ''123''), (''EMPTY'', []), (''ZERO'', ''0'')]) \<and>
   resolve_env example_host (example_state PNone [])
     (PDict [(''name'', PStr ''FOO''), (''default'', PInt 2), (''type'', PStr ''int'')])
     = Inr (PInt 2, example_state PNone []) \<and>
   resolve_env example_host (example_state PNone [])
     (PDict [(''name'', PStr ''FOO'')])
     = Inl (EnvKeyMissing (PStr ''FOO'')) \<and>
   resolve_env example_host (example_state PNone [(''FOO'', ''123'')])
     (PDict [(''name'', PStr ''FOO''), (''type'', PStr ''complex'')])
     = Inl (UnknownType (PStr ''complex''))"
proof -
  let ?s = "example_state PNone [(''FOO'', ''123''), (''EMPTY'', []), (''ZERO'', ''0'')]"
  let ?int = "[(''name'', PStr ''FOO''), (''default'', PInt 2), (''type'', PStr ''int'')]"
  let ?float = "[(''name'', PStr ''FOO''), (''type'', PStr ''float'')]"
  let ?empty = "[(''name'', PStr ''EMPTY''), (''default'', PInt 2), (''type'', PStr ''bool'')]"
  let ?zero = "[(''name'', PStr ''ZERO''), (''default'', PInt 2), (''type'', PStr ''bool'')]"
  let ?str = "[(''name'', PStr ''EMPTY''), (''default'', PInt 2)]"
  have "resolve_env example_host ?s (PDict ?int) = Inr (PInt 123, ?s)"
    using env_lookup_and_fallback
      [where d = ?int and name = "''FOO''" and default_value = "PInt 2" and c = "''int''"
         and H = example_host and s = ?s and raw = "''123''"]
    by (simp add: example_state_def example_host_def digit_value_def)
  moreover have "resolve_env example_host ?s (PDict ?float) = Inr (PFloat (Finite 123 0), ?s)"
    using env_lookup_and_fallback
      [where d = ?float and name = "''FOO''" and default_value = PNone and c = "''float''"
         and H = example_host and s = ?s and raw = "''123''"]
    by (simp add: example_state_def example_host_def digit_value_def)
  moreover have "resolve_env example_host ?s (PDict ?empty) = Inr (PBool False, ?s)"
    using env_lookup_and_fallback
      [where d = ?empty and name = "''EMPTY''" and default_value = "PInt 2" and c = "''bool''"
         and H = example_host and s = ?s and raw = "[]"]
    by (simp add: example_state_def)
  moreover have "resolve_env example_host ?s (PDict ?zero) = Inr (PBool True, ?s)"
    using env_lookup_and_fallback
      [where d = ?zero and name = "''ZERO''" and default_value = "PInt 2" and c = "''bool''"
         and H = example_host and s = ?s and raw = "''0''"]
    by (simp add: example_state_def)
  moreover have "resolve_env example_host ?s (PDict ?str) = Inr (PStr [], ?s)"
    using env_lookup_and_fallback
      [where d = ?str and name = "''EMPTY''" and default_value = "PInt 2" and c = "''str''"
         and H = example_host and s = ?s and raw = "[]"]
    by (simp add: example_state_def)
  moreover have "resolve_env example_host (example_state PNone []) (PDict ?int)
      = Inr (PInt 2, example_state PNone [])"
    using env_lookup_and_fallback
      [where d = ?int and name = "''FOO''" and default_value = "PInt 2" and c = "''int''"
         and H = example_host and s = "example_state PNone []"]
    by (simp add: example_state_def)
  moreover have "resolve_env example_host (example_state PNone [])
      (PDict [(''name'', PStr ''FOO'')]) = Inl (EnvKeyMissing (PStr ''FOO''))"
    using env_lookup_and_fallback
      [where d = "[(''name'', PStr ''FOO'')]" and name = "''FOO''" and default_value = PNone
         and c = "''str''" and H = example_host and s = "example_state PNone []"]
    by (simp add: example_state_def)
  moreover have "resolve_env example_host (example_state PNone [(''FOO'', ''123'')])
      (PDict [(''name'', PStr ''FOO''), (''type'', PStr ''complex'')])
      = Inl (UnknownType (PStr ''complex''))"
    using env_lookup_and_fallback
      [where d = "[(''name'', PStr ''FOO''), (''type'', PStr ''complex'')]"
         and name = "''FOO''" and default_value = PNone and c = "''complex''"
         and H = example_host and s = "example_state PNone [(''FOO'', ''123'')]"]
    by simp
  ultimately show ?thesis by blast
qed

text \<open>
  C10.  \<open>$env\<close> reached through the walker, with a name absent from the environment and a
  valid type: a default other than \<open>None\<close> is the result exactly as the template has it,
  whatever it is (an operator node stays one) and whatever the type, and the state is
  untouched; a default that is \<open>None\<close> gives the key-missing error, as no default does.
\<close>

theorem env_default_returned_as_written:
  assumes "map_of d ''name'' = Some (PStr name)"
    and "map_of (environment s) name = None"
    and "lookup_constructor H (case map_of d ''type'' of None \<Rightarrow> PStr ''str'' | Some t \<Rightarrow> t)
           = Inr f"
  shows "(map_of d ''default'' = Some dv \<and> dv \<noteq> PNone \<longrightarrow>
            resolve H (Suc n) s (PDict [(''$env'', PDict d)]) = Inr (dv, s)) \<and>
         (map_of d ''default'' = Some PNone \<longrightarrow>
            resolve H (Suc n) s (PDict [(''$env'', PDict d)])
              = Inl (EnvKeyMissing (PStr name)))"
  using assms by (simp add: resolve_env_operator resolve_env_def del: resolve.simps)

theorem env_default_returned_as_written_witness:
  "resolve example_host (Suc 0) (example_state PNone [])
     (PDict [(''$env'', PDict [(''name'', PStr ''FOO''),
                               (''default'', PDict [(''$range'', PInt 2)]),
                               (''type'', PStr ''int'')])])
     = Inr (PDict [(''$range'', PInt 2)], example_state PNone []) \<and>
   resolve example_host (Suc 0) (example_state PNone [])
     (PDict [(''$env'', PDict [(''name'', PStr ''FOO''), (''default'', PNone)])])
     = Inl (EnvKeyMissing (PStr ''FOO''))"
proof -
  let ?int = "\<lambda>v. case int_of_str example_host v of
                     None \<Rightarrow> Inl ValueError | Some i \<Rightarrow> Inr (PInt i)"
  let ?str = "\<lambda>v::string. (Inr (PStr v) :: error + pyval)"
  have "resolve example_host (Suc 0) (example_state PNone [])
     (PDict [(''$env'', PDict [(''name'', PStr ''FOO''),
                               (''default'', PDict [(''$range'', PInt 2)]),
                               (''type'', PStr ''int'')])])
     = Inr (PDict [(''$range'', PInt 2)], example_state PNone [])"
    using env_default_returned_as_written
      [where d = "[(''name'', PStr ''FOO''), (''default'', PDict [(''$range'', PInt 2)]),
                  (''type'', PStr ''int'')]"
         and name = "''FOO''" and s = "example_state PNone []" and H = example_host
         and f = ?int and dv = "PDict [(''$range'', PInt 2)]" and n = 0]
    by (simp add: example_state_def ENV_CONSTRUCTORS_def del: resolve.simps)
  moreover have "resolve example_host (Suc 0) (example_state PNone [])
     (PDict [(''$env'', PDict [(''name'', PStr ''FOO''), (''default'', PNone)])])
     = Inl (EnvKeyMissing (PStr ''FOO''))"
    using env_default_returned_as_written
      [where d = "[(''name'', PStr ''FOO''), (''default'', PNone)]" and name = "''FOO''"
         and s = "example_state PNone []" and H = example_host and f = ?str and n = 0]
    by (simp add: example_state_def ENV_CONSTRUCTORS_def del: resolve.simps)
  ultimately show ?thesis by blast
qed

section \<open>The environment of a build\<close>

text \<open>
  C8.  \<open>build_template\<close> given the empty mapping for environment does what it does given
  no environment at all: it resolves the template in a state whose environment is the
  host's \<open>os.environ\<close>, not the empty mapping.
\<close>

theorem build_template_empty_environment:
  "build_template H fuel template (Some []) = build_template H fuel template None \<and>
   build_template H fuel template (Some []) =
     (case resolve H fuel \<lparr>toplevel = template, computed = [], resolving = {},
                            environment = os_environ H\<rparr> template of
        Inl e \<Rightarrow> Inl e | Inr (v, s) \<Rightarrow> Inr v)"
  by (simp add: build_template_def)

lemma build_template_empty_environment_example:
  "build_template example_host (Suc 0) (PDict [(''$env'', PStr ''HOME'')]) (Some [])
     = Inr (PStr ''/root'')"
  by (simp add: build_template_def resolve_env_operator resolve_env_def ENV_CONSTRUCTORS_def
      example_host_def del: resolve.simps)

section \<open>Facts about the type tests and builtins\<close>

lemma check_type_all_iff: "check_type_all items ty \<longleftrightarrow> (\<forall>v \<in> set items. ty v)"
  by (induction items) auto

lemma not_Iterable_iff:
  "\<not> isinstance_Iterable v \<longleftrightarrow>
     v = PNone \<or> (\<exists>b. v = PBool b) \<or> (\<exists>i. v = PInt i) \<or> (\<exists>f. v = PFloat f)"
  by (cases v) auto

lemma is_list_like_cases: "is_list_like v \<longleftrightarrow> (\<exists>xs. v = PList xs) \<or> (\<exists>xs. v = PTuple xs)"
  by (cases v) (auto simp: is_list_like_def)

lemma iter_constructor_of: "is_list_like a \<Longrightarrow> iter (constructor_of a vs) = vs"
  by (auto simp: is_list_like_cases)

lemma constructor_of_twice:
  "is_list_like a \<Longrightarrow> constructor_of (constructor_of a vs) ws = constructor_of a ws"
  by (auto simp: is_list_like_cases)

lemma nexts_None: "nexts its = None \<longleftrightarrow> [] \<in> set its"
  by (induction its rule: nexts.induct) (auto split: option.splits)

lemma nexts_Some:
  "nexts its = Some (hs, ts) \<Longrightarrow> hs = map hd its \<and> ts = map tl its"
  by (induction its arbitrary: hs ts rule: nexts.induct) (auto split: option.splits)

lemma py_zip_unfold:
  "py_zip xss =
     (if xss = [] \<or> [] \<in> set xss then [] else map hd xss # py_zip (map tl xss))"
proof (cases xss)
  case Nil
  then show ?thesis by simp
next
  case (Cons it its)
  show ?thesis
  proof (cases it)
    case Nil
    with Cons show ?thesis by simp
  next
    case it: (Cons x xs)
    show ?thesis
    proof (cases "nexts its")
      case None
      with Cons it show ?thesis by (simp add: nexts_None [symmetric])
    next
      case (Some p)
      then obtain hs ts where p: "nexts its = Some (hs, ts)" by (cases p) simp
      then have "[] \<notin> set its"
        using nexts_None [of its] by simp
      with Cons it p nexts_Some [OF p] show ?thesis by simp
    qed
  qed
qed

lemma length_py_zip:
  "xss \<noteq> [] \<Longrightarrow> length (py_zip xss) = Min (set (map length xss))"
proof (induction m \<equiv> "length (hd xss)" arbitrary: xss rule: less_induct)
  case less
  let ?A = "set (map length xss)"
  have ne: "?A \<noteq> {}" using less.prems by simp
  show ?case
  proof (cases "[] \<in> set xss")
    case True
    then have "0 \<in> ?A" by force
    then have "Min ?A = 0"
      by (metis List.finite_set Min_le le_zero_eq)
    with True show ?thesis by (subst py_zip_unfold) simp
  next
    case False
    with less.prems have step: "py_zip xss = map hd xss # py_zip (map tl xss)"
      by (subst py_zip_unfold) simp
    from False less.prems have "hd xss \<noteq> []"
      by (cases xss) auto
    then have "length (hd (map tl xss)) < length (hd xss)"
      using less.prems by (cases xss) (auto simp: neq_Nil_conv)
    then have IH: "length (py_zip (map tl xss)) = Min (set (map length (map tl xss)))"
      using less.hyps [of "map tl xss"] less.prems by simp
    have img: "set (map length (map tl xss)) = (\<lambda>k. k - 1) ` ?A"
      by (auto simp: image_iff)
    have pos: "\<forall>k \<in> ?A. 0 < k" using False by auto
    have "mono (\<lambda>k::nat. k - 1)" by (simp add: mono_def diff_le_mono)
    then have "Min ?A - 1 = Min ((\<lambda>k. k - 1) ` ?A)"
      using ne by (intro mono_Min_commute) simp_all
    moreover have "0 < Min ?A" using pos ne by (simp add: Min_gr_iff)
    ultimately have "Suc (Min (set (map length (map tl xss)))) = Min ?A"
      using img by simp
    with step IH show ?thesis by simp
  qed
qed

lemma nth_py_zip:
  "i < length (py_zip xss) \<Longrightarrow> py_zip xss ! i = map (\<lambda>xs. xs ! i) xss"
proof (induction i arbitrary: xss)
  case 0
  then have ne: "\<not> (xss = [] \<or> [] \<in> set xss)"
    by (subst (asm) py_zip_unfold) (simp split: if_splits)
  then have "\<forall>xs \<in> set xss. \<exists>y ys. xs = y # ys"
    by (metis list.exhaust)
  then have "\<forall>xs \<in> set xss. hd xs = xs ! 0" by fastforce
  with ne show ?case by (subst py_zip_unfold) simp
next
  case (Suc j)
  then have ne: "\<not> (xss = [] \<or> [] \<in> set xss)"
    by (subst (asm) py_zip_unfold) (simp split: if_splits)
  then have step: "py_zip xss = map hd xss # py_zip (map tl xss)"
    by (subst py_zip_unfold) simp
  with Suc.prems have "j < length (py_zip (map tl xss))" by simp
  then have "py_zip (map tl xss) ! j = map (\<lambda>xs. xs ! j) (map tl xss)"
    by (rule Suc.IH)
  moreover have "\<forall>xs \<in> set xss. \<exists>y ys. xs = y # ys"
    using ne by (metis list.exhaust)
  then have "\<forall>xs \<in> set xss. tl xs ! j = xs ! Suc j" by fastforce
  ultimately show ?case using step by simp
qed

section \<open>The walker on sequences\<close>

text \<open>
  C2.  The walker rebuilds every sequence as a list: a template that is a mapping with
  a tuple in it, and has no operator node, does not come back as it went in.
\<close>

theorem walker_rebuilds_tuple_as_list:
  "build_template example_host 3 (PDict [(''a'', PTuple [PInt 1, PInt 2])]) None
     = Inr (PDict [(''a'', PList [PInt 1, PInt 2])])"
  by code_simp

text \<open>
  The template of the repository's test \<open>test_config_zip\<close>, which expects the tuples
  that \<open>$zip\<close> makes under the key \<open>a\<close>: the second pass of \<open>$product\<close> over them
  turns each into a list.
\<close>

lemma test_config_zip_result:
  "build_template example_host 5
     (PDict [(''$product'',
        PDict [(''a'', PDict [(''$zip'', PList [PList [PStr ''a'', PStr ''b'', PStr ''c''],
                                                PList [PInt 1, PInt 2, PInt 3]])]),
               (''b'', PList [PStr ''a'', PStr ''b''])])]) None
   = Inr (PList
       [PDict [(''a'', PList [PStr ''a'', PInt 1]), (''b'', PStr ''a'')],
        PDict [(''a'', PList [PStr ''a'', PInt 1]), (''b'', PStr ''b'')],
        PDict [(''a'', PList [PStr ''b'', PInt 2]), (''b'', PStr ''a'')],
        PDict [(''a'', PList [PStr ''b'', PInt 2]), (''b'', PStr ''b'')],
        PDict [(''a'', PList [PStr ''c'', PInt 3]), (''b'', PStr ''a'')],
        PDict [(''a'', PList [PStr ''c'', PInt 3]), (''b'', PStr ''b'')]])"
  by code_simp

lemma operator_of_plain: "\<not> operator_node v \<Longrightarrow> operator_of H R v = None"
  by (induction v rule: operator_node.induct)
     (auto simp: OPS_SWITCH_def operator_key_def)

lemma fold_max_ge: "x \<in> set xs \<Longrightarrow> x \<le> fold max xs (a::nat)"
proof (induction xs arbitrary: a)
  case Nil
  then show ?case by simp
next
  case (Cons y ys)
  have mono: "b \<le> fold max ys b" for b :: nat
    by (induction ys arbitrary: b) (auto intro: order_trans [OF max.cobounded2])
  from Cons show ?case
    by (auto intro: order_trans [OF max.cobounded1 mono])
qed

lemma resolve_each_unchanged:
  "\<forall>x \<in> set xs. R s x = Inr (x, s) \<Longrightarrow> resolve_each R s xs = Inr (xs, s)"
  by (induction xs) simp_all

text \<open>
  The identity law, for templates without tuples: a value with no operator node and no
  tuple in it is returned as it is, and the state with it, when the recursion limit is
  above the depth of the value.
\<close>

lemma resolve_plain:
  "plain v \<Longrightarrow> depth v < n \<Longrightarrow> resolve H n s v = Inr (v, s)"
proof (induction n arbitrary: v)
  case 0
  then show ?case by simp
next
  case (Suc n)
  have op: "operator_of H (resolve H n) v = None"
    using Suc.prems(1) by (intro operator_of_plain) (cases v; auto)
  show ?case
  proof (cases v)
    case (PList xs)
    have "\<forall>x \<in> set xs. resolve H n s x = Inr (x, s)"
    proof
      fix x assume x: "x \<in> set xs"
      with Suc.prems(1) PList have "plain x" by (simp add: list_all_iff)
      moreover have "depth x \<le> fold max (map depth xs) 0"
        using x by (intro fold_max_ge) simp
      with Suc.prems(2) PList have "depth x < n" by simp
      ultimately show "resolve H n s x = Inr (x, s)" by (rule Suc.IH)
    qed
    then have "resolve_each (resolve H n) s xs = Inr (xs, s)"
      by (rule resolve_each_unchanged)
    with op PList show ?thesis by (simp add: is_list_like_def)
  next
    case (PDict d)
    have "\<forall>x \<in> set (map snd d). resolve H n s x = Inr (x, s)"
    proof
      fix x assume x: "x \<in> set (map snd d)"
      with Suc.prems(1) PDict have "plain x" by (auto simp: list_all_iff)
      moreover have "depth x \<le> fold max (map depth (map snd d)) 0"
        using x by (intro fold_max_ge) auto
      with Suc.prems(2) PDict have "depth x < n" by simp
      ultimately show "resolve H n s x = Inr (x, s)" by (rule Suc.IH)
    qed
    then have "resolve_each (resolve H n) s (map snd d) = Inr (map snd d, s)"
      by (rule resolve_each_unchanged)
    with op PDict show ?thesis by (simp add: is_list_like_def zip_map_fst_snd)
  qed (use op Suc.prems in \<open>simp_all add: is_list_like_def\<close>)
qed

lemma build_template_plain:
  "plain template \<Longrightarrow> depth template < fuel \<Longrightarrow>
     build_template H fuel template environment0 = Inr template"
  by (simp add: build_template_def resolve_plain)

text \<open>
  The second pass of \<open>$product\<close> over values that hold no operator node and no tuple
  returns them as they are.
\<close>

lemma second_pass_plain:
  "\<forall>x \<in> set xs. plain x \<and> depth x < n \<Longrightarrow>
     resolve_each (resolve H n) s xs = Inr (xs, s)"
  by (intro resolve_each_unchanged) (simp add: resolve_plain)

section \<open>Concatenation\<close>

text \<open>
  The claim C3 as stated fails: a string among the resolved elements does not make
  \<open>$+\<close> fail, its characters are concatenated.
\<close>

theorem concat_accepts_string:
  "resolve example_host 3 (example_state PNone [])
     (PDict [(''$+'', PList [PStr ''ab'', PList [PInt 1]])])
   = Inr (PList [PStr ''a'', PStr ''b'', PInt 1], example_state PNone [])"
  by code_simp

text \<open>
  C3, amended.  \<open>$+\<close> on a list or tuple whose elements resolve, one after the other, to
  \<open>items\<close>: if one of the items is not iterable, that is \<open>None\<close>, a bool, an int or a
  float, the operator fails with an assertion error; if all are iterable, the result is
  the concatenation, in order, of what iterating each item yields (the elements of a list
  or tuple, the characters of a string, the keys of a dict), in a sequence of the kind of
  the argument.
\<close>

theorem concat_of_iterables:
  assumes "is_list_like args"
    and "resolve_each (resolve H n) s (iter args) = Inr (items, s1)"
  shows "((\<exists>v \<in> set items. v = PNone \<or> (\<exists>b. v = PBool b) \<or> (\<exists>i. v = PInt i) \<or>
                            (\<exists>f. v = PFloat f)) \<longrightarrow>
            resolve H (Suc n) s (PDict [(''$+'', args)]) = Inl AssertionError) \<and>
         ((\<forall>v \<in> set items. isinstance_Iterable v) \<longrightarrow>
            resolve H (Suc n) s (PDict [(''$+'', args)])
              = Inr (constructor_of args (concat (map iter items)), s1))"
proof -
  have it: "isinstance_Iterable args"
    using assms(1) by (auto simp: is_list_like_cases)
  have "resolve H (Suc n) s (PDict [(''$+'', args)]) =
     (if \<not> check_type_all items isinstance_Iterable then Inl AssertionError
      else Inr (constructor_of args (concat (map iter items)), s1))"
    using assms it
    by (simp add: resolve_concat_operator resolve_concat_def map_list_like_def
        iter_constructor_of constructor_of_twice del: resolve.simps)
  then show ?thesis
    using not_Iterable_iff by (auto simp: check_type_all_iff)
qed

theorem concat_of_iterables_witness:
  "resolve example_host (Suc 2) (example_state PNone [])
     (PDict [(''$+'', PList [PList [PInt 1, PInt 2], PList [PInt 3, PInt 4]])])
     = Inr (PList [PInt 1, PInt 2, PInt 3, PInt 4], example_state PNone []) \<and>
   resolve example_host (Suc 2) (example_state PNone [])
     (PDict [(''$+'', PList [PList [PInt 1, PInt 2], PInt 3])])
     = Inl AssertionError"
proof -
  let ?s = "example_state PNone []"
  have a: "is_list_like (PList [PList [PInt 1, PInt 2], PList [PInt 3, PInt 4]])"
    and b: "resolve_each (resolve example_host 2) ?s
              (iter (PList [PList [PInt 1, PInt 2], PList [PInt 3, PInt 4]]))
            = Inr ([PList [PInt 1, PInt 2], PList [PInt 3, PInt 4]], ?s)"
    and c: "is_list_like (PList [PList [PInt 1, PInt 2], PInt 3])"
    and d: "resolve_each (resolve example_host 2) ?s
              (iter (PList [PList [PInt 1, PInt 2], PInt 3]))
            = Inr ([PList [PInt 1, PInt 2], PInt 3], ?s)"
    by code_simp+
  show ?thesis
    using concat_of_iterables [OF a b] concat_of_iterables [OF c d]
    by (simp del: resolve.simps)
qed

section \<open>Zip\<close>

text \<open>
  The claim C6 as stated fails: of two sub-templates that each resolve to a sequence,
  the first to a tuple and the second to a list, \<open>$zip\<close> makes an assertion error.
\<close>

theorem zip_rejects_mixed_sequences:
  "resolve example_host 4 (example_state PNone [])
     (PDict [(''$+'', PTuple [PList [PInt 1]])])
     = Inr (PTuple [PInt 1], example_state PNone []) \<and>
   resolve example_host 4 (example_state PNone []) (PList [PInt 2])
     = Inr (PList [PInt 2], example_state PNone []) \<and>
   resolve example_host 5 (example_state PNone [])
     (PDict [(''$zip'', PList [PDict [(''$+'', PTuple [PList [PInt 1]])], PList [PInt 2]])])
     = Inl AssertionError"
  by code_simp

text \<open>
  C6, amended.  \<open>$zip\<close> on a list or tuple whose elements resolve, one after the other,
  to \<open>items\<close> that are all lists or all tuples: the result is a list of tuples, as many as
  the shortest item has elements (none when there is no item), and the tuple at position
  \<open>i\<close> holds the elements at position \<open>i\<close> of the items, in order.
\<close>

theorem zip_of_uniform_sequences:
  assumes "is_list_like args"
    and "resolve_each (resolve H n) s (iter args) = Inr (items, s1)"
    and "(\<forall>v \<in> set items. isinstance_list v) \<or> (\<forall>v \<in> set items. isinstance_tuple v)"
    and "out = py_zip (map iter items)"
  shows "resolve H (Suc n) s (PDict [(''$zip'', args)]) = Inr (PList (map PTuple out), s1) \<and>
         (items = [] \<longrightarrow> out = []) \<and>
         (items \<noteq> [] \<longrightarrow> length out = Min (set (map (\<lambda>v. length (iter v)) items))) \<and>
         (\<forall>i < length out. out ! i = map (\<lambda>v. iter v ! i) items)"
proof -
  have "resolve H (Suc n) s (PDict [(''$zip'', args)]) = Inr (PList (map PTuple out), s1)"
    using assms
    by (simp add: resolve_zip_operator resolve_zip_def check_type_all_iff del: resolve.simps)
  moreover have "items = [] \<longrightarrow> out = []"
    using assms(4) by simp
  moreover have "items \<noteq> [] \<longrightarrow> length out = Min (set (map (\<lambda>v. length (iter v)) items))"
    using length_py_zip [of "map iter items"] assms(4) by (simp add: comp_def)
  moreover have "\<forall>i < length out. out ! i = map (\<lambda>v. iter v ! i) items"
    using nth_py_zip [of _ "map iter items"] assms(4) by (simp add: comp_def)
  ultimately show ?thesis by blast
qed

theorem zip_of_uniform_sequences_witness:
  "resolve example_host (Suc 2) (example_state PNone [])
     (PDict [(''$zip'', PList [PList [PStr ''a'', PStr ''b'', PStr ''c''],
                               PList [PInt 1, PInt 2]])])
     = Inr (PList [PTuple [PStr ''a'', PInt 1], PTuple [PStr ''b'', PInt 2]],
            example_state PNone [])"
proof -
  let ?s = "example_state PNone []"
  let ?args = "PList [PList [PStr ''a'', PStr ''b'', PStr ''c''], PList [PInt 1, PInt 2]]"
  let ?items = "[PList [PStr ''a'', PStr ''b'', PStr ''c''], PList [PInt 1, PInt 2]]"
  let ?out = "[[PStr ''a'', PInt 1], [PStr ''b'', PInt 2]]"
  have a: "is_list_like ?args"
    and b: "resolve_each (resolve example_host 2) ?s (iter ?args) = Inr (?items, ?s)"
    and c: "(\<forall>v \<in> set ?items. isinstance_list v) \<or> (\<forall>v \<in> set ?items. isinstance_tuple v)"
    and d: "?out = py_zip (map iter ?items)"
    by code_simp+
  from zip_of_uniform_sequences [OF a b c d]
  have "resolve example_host (Suc 2) ?s (PDict [(''$zip'', ?args)])
          = Inr (PList (map PTuple ?out), ?s)"
    by (rule conjunct1)
  then show ?thesis by (simp del: resolve.simps)
qed

section \<open>Merging in place\<close>

lemma map_of_dict_setitem: "map_of (dict_setitem k v d) = (map_of d)(k \<mapsto> v)"
  by (induction d) (auto simp: fun_eq_iff)

lemma map_of_dict_update: "map_of (dict_update d other) = map_of d ++ map_of (rev other)"
  unfolding dict_update_def
proof (induction other arbitrary: d)
  case Nil
  show ?case by simp
next
  case (Cons item other)
  show ?case
    by (cases item) (simp add: Cons.IH map_of_dict_setitem fun_eq_iff map_add_def split: option.splits)
qed

lemma merge_heap_frame:
  "a \<noteq> b \<Longrightarrow> foldl (\<lambda>h t. h(b := dict_update (h b) (h t))) heap rest a = heap a"
  by (induction rest arbitrary: heap) simp_all

lemma merge_heap_base:
  "b \<notin> set rest \<Longrightarrow>
     foldl (\<lambda>h t. h(b := dict_update (h b) (h t))) heap rest b
       = foldl dict_update (heap b) (map heap rest)"
proof (induction rest arbitrary: heap)
  case Nil
  show ?case by simp
next
  case (Cons t rest)
  let ?h = "heap(b := dict_update (heap b) (heap t))"
  have same: "map ?h rest = map heap rest"
    using Cons.prems by auto
  have "foldl (\<lambda>h t. h(b := dict_update (h b) (h t))) heap (t # rest) b
          = foldl (\<lambda>h t. h(b := dict_update (h b) (h t))) ?h rest b"
    by simp
  also have "\<dots> = foldl dict_update (?h b) (map ?h rest)"
    using Cons.prems by (intro Cons.IH) simp
  also have "\<dots> = foldl dict_update (heap b) (map heap (t # rest))"
    unfolding same by simp
  finally show ?case .
qed

lemma map_of_rev_distinct: "distinct (map fst d) \<Longrightarrow> map_of (rev d) = map_of d"
proof (induction d)
  case Nil
  show ?case by simp
next
  case (Cons item d)
  then have "map_of d (fst item) = None"
    by (simp add: map_of_eq_None_iff)
  with Cons show ?case
    by (cases item) (auto simp: fun_eq_iff map_add_def split: option.splits)
qed

lemma map_of_foldl_dict_update:
  "\<forall>t \<in> set ds. distinct (map fst t) \<Longrightarrow>
     map_of (foldl dict_update d ds) = foldl (++) (map_of d) (map map_of ds)"
  by (induction ds arbitrary: d) (simp_all add: map_of_dict_update map_of_rev_distinct)

text \<open>
  C9.  \<open>merge_templates\<close> on the templates at the addresses \<open>base_template # rest\<close>:
  afterwards the store differs from the one before at the address of the first template
  only; the first template, where it is not itself among the later ones, holds the result
  of updating it with each later template in turn, which as a mapping is the first
  template overridden by each later one in turn; and what is built is the dict at that
  address, not a new one.
\<close>

theorem merge_templates_in_place:
  assumes "merge_templates H fuel heap (base_template # rest) environment0 = (heap', result)"
  shows "(\<forall>a. a \<noteq> base_template \<longrightarrow> heap' a = heap a) \<and>
         (base_template \<notin> set rest \<longrightarrow>
            heap' base_template = foldl dict_update (heap base_template) (map heap rest)) \<and>
         (base_template \<notin> set rest \<and> (\<forall>t \<in> set rest. distinct (map fst (heap t))) \<longrightarrow>
            map_of (heap' base_template)
              = foldl (++) (map_of (heap base_template)) (map (\<lambda>t. map_of (heap t)) rest)) \<and>
         result = build_template H fuel (PDict (heap' base_template)) environment0"
proof -
  from assms have h: "heap' = foldl (\<lambda>h t. h(base_template := dict_update (h base_template) (h t))) heap rest"
    and r: "result = build_template H fuel (PDict (heap' base_template)) environment0"
    by (auto simp: merge_templates_def Let_def)
  have 1: "\<forall>a. a \<noteq> base_template \<longrightarrow> heap' a = heap a"
    by (simp add: h merge_heap_frame)
  have 2: "heap' base_template = foldl dict_update (heap base_template) (map heap rest)"
    if "base_template \<notin> set rest"
    using that by (simp add: h merge_heap_base)
  have 3: "map_of (heap' base_template)
              = foldl (++) (map_of (heap base_template)) (map (\<lambda>t. map_of (heap t)) rest)"
    if "base_template \<notin> set rest" "\<forall>t \<in> set rest. distinct (map fst (heap t))"
    using that map_of_foldl_dict_update [of "map heap rest" "heap base_template"]
    by (simp add: 2 comp_def)
  from 1 2 3 r show ?thesis by blast
qed

theorem merge_templates_in_place_witness:
  "fst (merge_templates example_host 3 example_heap [0, 1] None) 0
      = [(''x'', PInt 1), (''y'', PInt 3), (''z'', PInt 4)] \<and>
   fst (merge_templates example_host 3 example_heap [0, 1] None) 1
      = [(''y'', PInt 3), (''z'', PInt 4)] \<and>
   snd (merge_templates example_host 3 example_heap [0, 1] None)
      = Inr (PDict [(''x'', PInt 1), (''y'', PInt 3), (''z'', PInt 4)])"
proof -
  obtain heap' result where
    m: "merge_templates example_host 3 example_heap [0, 1] None = (heap', result)"
    by (cases "merge_templates example_host 3 example_heap [0, 1] None")
  note t = merge_templates_in_place [OF m]
  from t have "heap' 1 = example_heap 1" by simp
  then have one: "heap' 1 = [(''y'', PInt 3), (''z'', PInt 4)]"
    by (simp add: example_heap_def)
  from t have "heap' 0 = foldl dict_update (example_heap 0) (map example_heap [1])" by simp
  then have zero: "heap' 0 = [(''x'', PInt 1), (''y'', PInt 3), (''z'', PInt 4)]"
    by (simp add: example_heap_def dict_update_def)
  from t have "result = build_template example_host 3 (PDict (heap' 0)) None" by simp
  also have "\<dots> = Inr (PDict [(''x'', PInt 1), (''y'', PInt 3), (''z'', PInt 4)])"
    unfolding zero by code_simp
  finally show ?thesis using m zero one by simp
qed

section \<open>The cartesian product\<close>

lemma concat_map_product:
  "concat (map (\<lambda>x. map (f x) ys) xs) = map (\<lambda>p. f (fst p) (snd p)) (List.product xs ys)"
  by (induction xs) simp_all

lemma resolve_each_length:
  "resolve_each R s xs = Inr (vs, s') \<Longrightarrow> length vs = length xs"
  by (induction xs arbitrary: s vs) (auto split: sum.splits prod.splits)

lemma foldl_product_length:
  "length (foldl (\<lambda>result pool. concat (map (\<lambda>x. map (\<lambda>y. x @ [y]) pool) result)) acc pools)
     = length acc * prod_list (map length pools)"
  by (induction pools arbitrary: acc) (simp_all add: concat_map_product)

lemma foldl_product_nth:
  "i < length acc * prod_list (map length pools) \<Longrightarrow>
   foldl (\<lambda>result pool. concat (map (\<lambda>x. map (\<lambda>y. x @ [y]) pool) result)) acc pools ! i
     = acc ! (i div prod_list (map length pools)) @
       map (\<lambda>j. pools ! j ! ((i div prod_list (map length (drop (Suc j) pools)))
                                 mod length (pools ! j)))
           [0..<length pools]"
proof (induction pools arbitrary: acc i)
  case Nil
  then show ?case by simp
next
  case (Cons p ps)
  let ?P = "prod_list (map length ps)"
  let ?acc = "concat (map (\<lambda>x. map (\<lambda>y. x @ [y]) p) acc)"
  have acc': "?acc = map (\<lambda>q. fst q @ [snd q]) (List.product acc p)"
    by (rule concat_map_product)
  have len: "length ?acc = length acc * length p"
    by (simp add: acc')
  from Cons.prems have i: "i < length ?acc * ?P"
    by (simp add: len mult.assoc)
  then have k: "i div ?P < length acc * length p"
    by (metis len less_mult_imp_div_less)
  have "?acc ! (i div ?P) = acc ! (i div ?P div length p) @ [p ! (i div ?P mod length p)]"
    using k by (simp add: acc' product_nth)
  moreover have "i div ?P div length p = i div (length p * ?P)"
    by (metis div_mult2_eq mult.commute)
  moreover have "map (\<lambda>j. (p # ps) ! j ! ((i div prod_list (map length (drop (Suc j) (p # ps))))
                                 mod length ((p # ps) ! j))) [0..<length (p # ps)]
     = p ! (i div ?P mod length p) #
       map (\<lambda>j. ps ! j ! ((i div prod_list (map length (drop (Suc j) ps))) mod length (ps ! j)))
           [0..<length ps]"
    by (simp add: map_upt_Suc del: upt_Suc)
  ultimately show ?case
    using Cons.IH [OF i] by simp
qed

lemma length_itertools_product:
  "length (itertools_product pools) = prod_list (map length pools)"
  by (simp add: itertools_product_def foldl_product_length)

lemma nth_itertools_product:
  "i < prod_list (map length pools) \<Longrightarrow>
   itertools_product pools ! i
     = map (\<lambda>j. pools ! j ! ((i div prod_list (map length (drop (Suc j) pools)))
                                 mod length (pools ! j)))
           [0..<length pools]"
  using foldl_product_nth [of i "[[]]" pools] by (simp add: itertools_product_def)

section \<open>Product over a mapping\<close>

text \<open>
  The claim C5 as stated fails.  The argument below resolves to the mapping of \<open>a\<close> to a
  sequence whose one element is the mapping \<open>{$range: 2}\<close> (the default of \<open>$env\<close>,
  returned as written), but the one mapping that \<open>$product\<close> puts out binds \<open>a\<close> to
  \<open>[0, 1]\<close>, not to that element: \<open>$product\<close> resolves the values of the resolved
  mapping a second time.
\<close>

theorem product_resolves_values_twice:
  "resolve example_host 4 (example_state PNone [])
     (PDict [(''a'', PList [PDict [(''$env'',
        PDict [(''name'', PStr ''X''), (''default'', PDict [(''$range'', PInt 2)])])]])])
     = Inr (PDict [(''a'', PList [PDict [(''$range'', PInt 2)]])], example_state PNone []) \<and>
   resolve example_host 5 (example_state PNone [])
     (PDict [(''$product'',
        PDict [(''a'', PList [PDict [(''$env'',
          PDict [(''name'', PStr ''X''), (''default'', PDict [(''$range'', PInt 2)])])]])])])
     = Inr (PList [PDict [(''a'', PList [PInt 0, PInt 1])]], example_state PNone [])"
  by code_simp

text \<open>
  C5, amended.  \<open>$product\<close> first resolves its whole argument with the walker.  When
  that gives a mapping \<open>d\<close>, the values of \<open>d\<close> are resolved once more, in key order,
  to \<open>vals\<close>.  When these are all lists or tuples, the result is a list of mappings, one
  for each combination of the cartesian product of \<open>vals\<close>: there are as many as the
  product of the lengths; each has the keys of \<open>d\<close>, in the order of \<open>d\<close>; and in the
  mapping at position \<open>i\<close> the key at position \<open>j\<close> is bound to the element of the
  \<open>j\<close>-th sequence at position \<open>i div m mod l\<close>, for \<open>l\<close> the length of that sequence
  and \<open>m\<close> the product of the lengths of the sequences after it: the last key varies
  fastest.
\<close>

theorem product_over_mapping:
  assumes "resolve H n s arg = Inr (PDict d, s1)"
    and "resolve_each (resolve H n) s1 (map snd d) = Inr (vals, s2)"
    and "\<forall>v \<in> set vals. is_list_like v"
    and "out = map (\<lambda>items. zip (map fst d) items) (itertools_product (map iter vals))"
  shows "resolve H (Suc n) s (PDict [(''$product'', arg)]) = Inr (PList (map PDict out), s2) \<and>
         length out = prod_list (map (\<lambda>v. length (iter v)) vals) \<and>
         (\<forall>i < length out. \<forall>j < length d.
            out ! i ! j =
              (fst (d ! j),
               iter (vals ! j) ! ((i div prod_list (map (\<lambda>v. length (iter v)) (drop (Suc j) vals)))
                                    mod length (iter (vals ! j)))) \<and>
            map fst (out ! i) = map fst d)"
proof -
  have lv: "length vals = length d"
    using resolve_each_length [OF assms(2)] by simp
  have it: "check_type_all vals isinstance_Iterable"
    using assms(3) by (auto simp: check_type_all_iff is_list_like_cases)
  have res: "resolve H (Suc n) s (PDict [(''$product'', arg)]) = Inr (PList (map PDict out), s2)"
    using assms(1,2,4) it
    by (simp add: resolve_product_operator resolve_product_def map_list_like_def
        is_list_like_def comp_def del: resolve.simps)
  have len: "length out = prod_list (map (\<lambda>v. length (iter v)) vals)"
    using assms(4) by (simp add: length_itertools_product comp_def)
  have el: "out ! i ! j =
              (fst (d ! j),
               iter (vals ! j) ! ((i div prod_list (map (\<lambda>v. length (iter v)) (drop (Suc j) vals)))
                                    mod length (iter (vals ! j))))"
    if i: "i < length out" and j: "j < length d" for i j
  proof -
    from i len have i': "i < prod_list (map length (map iter vals))"
      by (simp add: comp_def)
    have comb: "itertools_product (map iter vals) ! i =
        map (\<lambda>j. iter (vals ! j) ! ((i div prod_list (map (\<lambda>v. length (iter v)) (drop (Suc j) vals)))
                                    mod length (iter (vals ! j)))) [0..<length vals]"
      using nth_itertools_product [OF i'] by (simp add: comp_def drop_map)
    have oi: "out ! i = zip (map fst d) (itertools_product (map iter vals) ! i)"
      using i assms(4) by simp
    show ?thesis
      using j lv by (simp add: oi comb)
  qed
  have keys: "map fst (out ! i) = map fst d" if i: "i < length out" for i
  proof -
    from i len have i': "i < prod_list (map length (map iter vals))"
      by (simp add: comp_def)
    have "length (itertools_product (map iter vals) ! i) = length vals"
      using nth_itertools_product [OF i'] by simp
    with lv i assms(4) show ?thesis by simp
  qed
  from res len el keys show ?thesis by blast
qed


theorem product_over_mapping_witness:
  "resolve example_host (Suc 3) (example_state PNone [])
     (PDict [(''$product'', PDict [(''a'', PList [PInt 1, PDict [(''$range'', PInt 2)]]),
                                   (''b'', PList [PStr ''x'', PStr ''y''])])])
     = Inr (PList [PDict [(''a'', PInt 1), (''b'', PStr ''x'')],
                   PDict [(''a'', PInt 1), (''b'', PStr ''y'')],
                   PDict [(''a'', PList [PInt 0, PInt 1]), (''b'', PStr ''x'')],
                   PDict [(''a'', PList [PInt 0, PInt 1]), (''b'', PStr ''y'')]],
            example_state PNone [])"
proof -
  let ?s = "example_state PNone []"
  let ?arg = "PDict [(''a'', PList [PInt 1, PDict [(''$range'', PInt 2)]]),
                     (''b'', PList [PStr ''x'', PStr ''y''])]"
  let ?d = "[(''a'', PList [PInt 1, PList [PInt 0, PInt 1]]),
             (''b'', PList [PStr ''x'', PStr ''y''])]"
  let ?vals = "[PList [PInt 1, PList [PInt 0, PInt 1]], PList [PStr ''x'', PStr ''y'']]"
  let ?out = "[[(''a'', PInt 1), (''b'', PStr ''x'')],
               [(''a'', PInt 1), (''b'', PStr ''y'')],
               [(''a'', PList [PInt 0, PInt 1]), (''b'', PStr ''x'')],
               [(''a'', PList [PInt 0, PInt 1]), (''b'', PStr ''y'')]]"
  have a: "resolve example_host 3 ?s ?arg = Inr (PDict ?d, ?s)"
    by code_simp
  have b: "resolve_each (resolve example_host 3) ?s (map snd ?d) = Inr (?vals, ?s)"
    by code_simp
  have c: "\<forall>v \<in> set ?vals. is_list_like v"
    by (simp add: is_list_like_def)
  have d: "?out = map (\<lambda>items. zip (map fst ?d) items) (itertools_product (map iter ?vals))"
    by code_simp
  from product_over_mapping [OF a b c d]
  have "resolve example_host (Suc 3) ?s (PDict [(''$product'', ?arg)])
          = Inr (PList (map PDict ?out), ?s)"
    by (rule conjunct1)
  then show ?thesis by (simp del: resolve.simps)
qed

section \<open>What a call of the walker does to the state\<close>

lemma extends_refl: "extends s s"
  by (simp add: extends_def)

lemma extends_trans: "extends s s1 \<Longrightarrow> extends s1 s2 \<Longrightarrow> extends s s2"
  unfolding extends_def by (elim conjE exE) (auto simp: ball_Un)

lemma stored_once_append:
  "stored_once (new @ c) \<Longrightarrow> stored_once c"
  by (induction new) auto

lemma stored_once_None:
  "stored_once c \<Longrightarrow> map_of c k = Some PNone \<Longrightarrow> (k, v) \<in> set c \<Longrightarrow> v = PNone"
proof (induction c)
  case Nil
  then show ?case by simp
next
  case (Cons entry c)
  then show ?case by (cases entry) (auto split: if_splits)
qed

lemma is_None_entries:
  assumes "is_None (map_of c k)" and "stored_once c" and "(k, v) \<in> set c"
  shows "v = PNone"
proof (cases "map_of c k")
  case None
  with assms(3) show ?thesis by (metis map_of_eq_None_iff image_eqI fst_conv)
next
  case (Some w)
  with assms(1) have "w = PNone" by (cases w) simp_all
  with Some assms(2,3) show ?thesis by (metis stored_once_None)
qed

lemma extends_resolve_each:
  assumes R: "\<forall>s v r s'. R s v = Inr (r, s') \<longrightarrow> extends s s'"
  shows "resolve_each R s xs = Inr (vs, s') \<Longrightarrow> extends s s'"
proof (induction xs arbitrary: s vs)
  case Nil
  then show ?case by (simp add: extends_refl)
next
  case (Cons x xs)
  from Cons.prems obtain v s1 vs' where
    1: "R s x = Inr (v, s1)" and 2: "resolve_each R s1 xs = Inr (vs', s')"
    by (auto split: sum.splits prod.splits)
  from R [rule_format, OF 1] Cons.IH [OF 2] show ?case by (rule extends_trans)
qed

lemma extends_map_list_like:
  assumes R: "\<forall>s v r s'. R s v = Inr (r, s') \<longrightarrow> extends s s'"
  shows "map_list_like R s a = Inr (r, s') \<Longrightarrow> extends s s'"
  using extends_resolve_each [of R, OF R]
  by (auto simp: map_list_like_def split: if_splits sum.splits prod.splits)

lemma extends_resolve_ref:
  assumes R: "\<forall>s v r s'. R s v = Inr (r, s') \<longrightarrow> extends s s'"
    and res: "resolve_ref R s key = Inr (r, s')"
  shows "extends s s'"
proof (cases key)
  case (PStr k)
  show ?thesis
  proof (cases "is_None (map_of (computed s) k)")
    case False
    with res PStr have "s' = s" by (simp add: resolve_ref_def)
    then show ?thesis by (simp add: extends_refl)
  next
    case True
    let ?s1 = "s\<lparr>resolving := insert k (resolving s)\<rparr>"
    from res PStr True obtain t s2 where
      k: "k \<notin> resolving s" and
      t: "subscript (toplevel s) k = Inr t" and
      r: "R ?s1 t = Inr (r, s2)" and
      s': "s' = s2\<lparr>resolving := resolving s2 - {k}, computed := (k, r) # computed s2\<rparr>"
      by (auto simp: resolve_ref_def Let_def split: if_splits sum.splits prod.splits)
    from R [rule_format, OF r] obtain new where
      e: "resolving s2 = insert k (resolving s)" "toplevel s2 = toplevel s"
         "environment s2 = environment s" "computed s2 = new @ computed s"
         "\<forall>entry \<in> set new. fst entry \<notin> insert k (resolving s)"
         "stored_once (computed s) \<longrightarrow> stored_once (computed s2)"
      by (auto simp: extends_def)
    have "stored_once ((k, r) # computed s2)" if so: "stored_once (computed s)"
    proof -
      have "snd older = PNone" if "older \<in> set (computed s2)" "fst older = k" for older
      proof -
        from that e(4,5) have "older \<in> set (computed s)" by auto
        with that(2) have "(k, snd older) \<in> set (computed s)"
          by (metis prod.collapse)
        with True so show ?thesis by (rule is_None_entries)
      qed
      with so e(6) show ?thesis by simp
    qed
    with k e s' show ?thesis
      by (auto simp: extends_def)
  qed
qed (use res in \<open>simp_all add: resolve_ref_def\<close>)

lemma extends_resolve_concat:
  assumes R: "\<forall>s v r s'. R s v = Inr (r, s') \<longrightarrow> extends s s'"
  shows "resolve_concat R s a = Inr (r, s') \<Longrightarrow> extends s s'"
  using extends_map_list_like [of R, OF R]
  by (auto simp: resolve_concat_def split: if_splits sum.splits prod.splits)

lemma extends_resolve_zip:
  assumes R: "\<forall>s v r s'. R s v = Inr (r, s') \<longrightarrow> extends s s'"
  shows "resolve_zip R s a = Inr (r, s') \<Longrightarrow> extends s s'"
  using extends_resolve_each [of R, OF R]
  by (auto simp: resolve_zip_def split: if_splits sum.splits prod.splits)

lemma extends_resolve_product:
  assumes R: "\<forall>s v r s'. R s v = Inr (r, s') \<longrightarrow> extends s s'"
    and res: "resolve_product R s a = Inr (r, s')"
  shows "extends s s'"
proof -
  from res obtain args s1 where 1: "R s a = Inr (args, s1)"
    by (auto simp: resolve_product_def split: sum.splits prod.splits)
  have "\<exists>b r2. map_list_like R s1 b = Inr (r2, s')"
    using res 1
    by (auto simp: resolve_product_def split: if_splits sum.splits prod.splits pyval.splits)
  then obtain b r2 where 2: "map_list_like R s1 b = Inr (r2, s')" by blast
  from R [rule_format, OF 1] extends_map_list_like [of R, OF R 2] show ?thesis
    by (rule extends_trans)
qed

lemma extends_resolve_range: "resolve_range s a = Inr (r, s') \<Longrightarrow> extends s s'"
  by (auto simp: resolve_range_def Let_def extends_refl split: option.splits if_splits)

lemma extends_resolve_env: "resolve_env H s a = Inr (r, s') \<Longrightarrow> extends s s'"
  by (auto simp: resolve_env_def Let_def extends_refl
      split: option.splits if_splits sum.splits prod.splits pyval.splits)

lemma operator_of_cases:
  assumes "operator_of H R v = Some (fn, arg)"
  shows "fn = resolve_ref R \<or> fn = resolve_range \<or> fn = resolve_concat R \<or>
         fn = resolve_product R \<or> fn = resolve_zip R \<or> fn = resolve_env H"
  using assms
  by (induction H R v rule: operator_of.induct)
     (auto simp: OPS_SWITCH_def split: option.splits if_splits)

lemma extends_resolve:
  "resolve H n s v = Inr (r, s') \<Longrightarrow> extends s s'"
proof (induction n arbitrary: s v r s')
  case 0
  then show ?case by simp
next
  case (Suc n)
  have IH: "\<forall>s v r s'. resolve H n s v = Inr (r, s') \<longrightarrow> extends s s'"
    using Suc.IH by blast
  show ?case
  proof (cases "operator_of H (resolve H n) v")
    case (Some p)
    then obtain fn arg where op: "operator_of H (resolve H n) v = Some (fn, arg)"
      by (cases p) simp
    with Suc.prems have r: "fn s arg = Inr (r, s')" by simp
    note handlers =
      extends_resolve_ref [of "resolve H n", OF IH]
      extends_resolve_concat [of "resolve H n", OF IH]
      extends_resolve_product [of "resolve H n", OF IH]
      extends_resolve_zip [of "resolve H n", OF IH]
      extends_resolve_range extends_resolve_env
    from operator_of_cases [OF op] r show ?thesis
      by (auto dest: handlers)
  next
    case None
    show ?thesis
    proof (cases "is_list_like v")
      case True
      with None Suc.prems obtain vs where
        "resolve_each (resolve H n) s (iter v) = Inr (vs, s')"
        by (auto split: sum.splits prod.splits)
      then show ?thesis by (rule extends_resolve_each [of "resolve H n", OF IH])
    next
      case False
      show ?thesis
      proof (cases v)
        case (PDict d)
        with None False Suc.prems obtain vs where
          "resolve_each (resolve H n) s (map snd d) = Inr (vs, s')"
          by (auto split: sum.splits prod.splits)
        then show ?thesis by (rule extends_resolve_each [of "resolve H n", OF IH])
      qed (use None False Suc.prems in \<open>auto simp: extends_refl\<close>)
    qed
  qed
qed

section \<open>What the calls of a call do\<close>

text \<open>
  The result of a call depends on the walker only through the calls listed for it: two
  depths of the walker that agree on these calls agree on the call.
\<close>

lemma each_calls_determine:
  "\<forall>c \<in> set (each_calls R s items). R (fst c) (snd c) = R' (fst c) (snd c) \<Longrightarrow>
     resolve_each R s items = resolve_each R' s items \<and>
     each_calls R s items = each_calls R' s items"
proof (induction items arbitrary: s)
  case Nil
  then show ?case by simp
next
  case (Cons item items)
  from Cons.prems have first: "R s item = R' s item" by simp
  show ?case
  proof (cases "R s item")
    case (Inl e)
    with first have "R' s item = Inl e" by simp
    with Inl show ?thesis by simp
  next
    case (Inr p)
    obtain v s1 where p: "p = (v, s1)" by (cases p)
    from Cons.prems Inr p
    have "\<forall>c \<in> set (each_calls R s1 items). R (fst c) (snd c) = R' (fst c) (snd c)"
      by simp
    moreover from first Inr p have "R' s item = Inr (v, s1)" by simp
    ultimately show ?thesis using Cons.IH [of s1] Inr p by simp
  qed
qed

lemma map_list_like_calls_determine:
  "\<forall>c \<in> set (map_list_like_calls R s a). R (fst c) (snd c) = R' (fst c) (snd c) \<Longrightarrow>
     map_list_like R s a = map_list_like R' s a \<and>
     map_list_like_calls R s a = map_list_like_calls R' s a"
  using each_calls_determine [of R s "iter a" R']
  by (simp add: map_list_like_def map_list_like_calls_def)

lemma ref_calls_determine:
  "\<forall>c \<in> set (ref_calls R s a). R (fst c) (snd c) = R' (fst c) (snd c) \<Longrightarrow>
     resolve_ref R s a = resolve_ref R' s a \<and> ref_calls R s a = ref_calls R' s a"
  by (auto simp: resolve_ref_def ref_calls_def Let_def split: pyval.splits sum.splits)

lemma concat_calls_determine:
  "\<forall>c \<in> set (concat_calls R s a). R (fst c) (snd c) = R' (fst c) (snd c) \<Longrightarrow>
     resolve_concat R s a = resolve_concat R' s a \<and> concat_calls R s a = concat_calls R' s a"
  using map_list_like_calls_determine [of R s a R']
  by (simp add: resolve_concat_def concat_calls_def)

lemma zip_calls_determine:
  "\<forall>c \<in> set (zip_calls R s a). R (fst c) (snd c) = R' (fst c) (snd c) \<Longrightarrow>
     resolve_zip R s a = resolve_zip R' s a \<and> zip_calls R s a = zip_calls R' s a"
  using each_calls_determine [of R s "iter a" R']
  by (simp add: resolve_zip_def zip_calls_def)

lemma product_calls_determine:
  assumes "\<forall>c \<in> set (product_calls R s a). R (fst c) (snd c) = R' (fst c) (snd c)"
  shows "resolve_product R s a = resolve_product R' s a \<and>
         product_calls R s a = product_calls R' s a"
proof -
  from assms have first: "R s a = R' s a" by (simp add: product_calls_def)
  show ?thesis
  proof (cases "R s a")
    case (Inl e)
    with first have "R' s a = Inl e" by simp
    with Inl show ?thesis by (simp add: resolve_product_def product_calls_def)
  next
    case (Inr p)
    obtain args s1 where p: "p = (args, s1)" by (cases p)
    with first Inr have second: "R' s a = Inr (args, s1)" by simp
    note first = Inr [unfolded p] second
    show ?thesis
    proof (cases "is_list_like args")
      case True
      with assms Inr p
      have "\<forall>c \<in> set (map_list_like_calls R s1 args). R (fst c) (snd c) = R' (fst c) (snd c)"
        by (simp add: product_calls_def)
      from map_list_like_calls_determine [OF this] first Inr p True show ?thesis
        by (simp add: resolve_product_def product_calls_def)
    next
      case False
      show ?thesis
      proof (cases "\<exists>d. args = PDict d")
        case True
        then obtain d where d: "args = PDict d" ..
        with assms Inr p False
        have "\<forall>c \<in> set (map_list_like_calls R s1 (PTuple (map snd d))).
                R (fst c) (snd c) = R' (fst c) (snd c)"
          by (simp add: product_calls_def)
        from map_list_like_calls_determine [OF this] first Inr p False d show ?thesis
          by (simp add: resolve_product_def product_calls_def)
      next
        case no: False
        with first Inr p False show ?thesis
          by (cases args) (simp_all add: resolve_product_def product_calls_def)
      qed
    qed
  qed
qed

text \<open>
  A failure of a call made by a call is the failure of that call: no handler catches an
  exception.  And the state in which a call is made differs from the state of the call
  that makes it only by what the calls before it have stored, or, for the call made by a
  reference, by the key of the reference in the resolving set.
\<close>

lemma each_calls_error:
  "(s', x) \<in> set (each_calls R s xs) \<Longrightarrow> R s' x = Inl e \<Longrightarrow> resolve_each R s xs = Inl e"
proof (induction xs arbitrary: s)
  case Nil
  then show ?case by simp
next
  case (Cons item items)
  show ?case
  proof (cases "R s item")
    case (Inl e')
    with Cons.prems show ?thesis by auto
  next
    case (Inr p)
    obtain v s1 where p: "p = (v, s1)" by (cases p)
    show ?thesis
    proof (cases "(s', x) = (s, item)")
      case True
      with Inr Cons.prems(2) show ?thesis by simp
    next
      case False
      with Cons.prems(1) Inr p have "(s', x) \<in> set (each_calls R s1 items)" by auto
      from Cons.IH [OF this Cons.prems(2)] Inr p show ?thesis by simp
    qed
  qed
qed

lemma each_calls_extends:
  assumes R: "\<forall>s v r s'. R s v = Inr (r, s') \<longrightarrow> extends s s'"
  shows "(s', x) \<in> set (each_calls R s xs) \<Longrightarrow> extends s s'"
proof (induction xs arbitrary: s)
  case Nil
  then show ?case by simp
next
  case (Cons item items)
  show ?case
  proof (cases "(s', x) = (s, item)")
    case True
    then show ?thesis by (simp add: extends_refl)
  next
    case False
    show ?thesis
    proof (cases "R s item")
      case (Inl e)
      with False Cons.prems show ?thesis by auto
    next
      case (Inr p)
      obtain v s1 where p: "p = (v, s1)" by (cases p)
      with Inr have 1: "R s item = Inr (v, s1)" by simp
      with False Cons.prems have 2: "(s', x) \<in> set (each_calls R s1 items)" by auto
      from R [rule_format, OF 1] Cons.IH [OF 2] show ?thesis by (rule extends_trans)
    qed
  qed
qed

lemma each_calls_returned:
  "resolve_each R s xs = Inr (vs, s') \<Longrightarrow> map snd (each_calls R s xs) = xs"
  by (induction xs arbitrary: s vs) (auto split: sum.splits prod.splits)

lemma ref_calls_error:
  "(s', x) \<in> set (ref_calls R s key) \<Longrightarrow> R s' x = Inl e \<Longrightarrow> resolve_ref R s key = Inl e"
  by (auto simp: ref_calls_def resolve_ref_def Let_def
      split: pyval.splits if_splits sum.splits)

lemma map_list_like_calls_error:
  "(s', x) \<in> set (map_list_like_calls R s a) \<Longrightarrow> R s' x = Inl e \<Longrightarrow>
     map_list_like R s a = Inl e"
  by (auto simp: map_list_like_calls_def map_list_like_def dest: each_calls_error split: if_splits)

lemma concat_calls_error:
  "(s', x) \<in> set (concat_calls R s a) \<Longrightarrow> R s' x = Inl e \<Longrightarrow> resolve_concat R s a = Inl e"
  by (auto simp: concat_calls_def resolve_concat_def dest: map_list_like_calls_error
      split: if_splits)

lemma zip_calls_error:
  "(s', x) \<in> set (zip_calls R s a) \<Longrightarrow> R s' x = Inl e \<Longrightarrow> resolve_zip R s a = Inl e"
  by (auto simp: zip_calls_def resolve_zip_def dest: each_calls_error split: if_splits)

lemma product_calls_error:
  assumes "(s', x) \<in> set (product_calls R s a)" and "R s' x = Inl e"
  shows "resolve_product R s a = Inl e"
proof (cases "(s', x) = (s, a)")
  case True
  with assms(2) show ?thesis by (simp add: resolve_product_def)
next
  case False
  show ?thesis
  proof (cases "R s a")
    case (Inl e')
    with False assms(1) show ?thesis by (auto simp: product_calls_def)
  next
    case (Inr p)
    obtain args s1 where p: "p = (args, s1)" by (cases p)
    show ?thesis
    proof (cases "is_list_like args")
      case True
      with False assms(1) Inr p have "(s', x) \<in> set (map_list_like_calls R s1 args)"
        by (auto simp: product_calls_def)
      from map_list_like_calls_error [OF this assms(2)] Inr p True show ?thesis
        by (simp add: resolve_product_def)
    next
      case nl: False
      with False assms(1) Inr p obtain d where d: "args = PDict d"
        and "(s', x) \<in> set (map_list_like_calls R s1 (PTuple (map snd d)))"
        by (auto simp: product_calls_def split: pyval.splits)
      from map_list_like_calls_error [OF this(2) assms(2)] Inr p nl d show ?thesis
        by (simp add: resolve_product_def)
    qed
  qed
qed

lemma operator_node_cases:
  assumes "operator_node v"
  obtains (Ref) arg where "v = PDict [(''$ref'', arg)]"
    | (Range) arg where "v = PDict [(''$range'', arg)]"
    | (Concat) arg where "v = PDict [(''$+'', arg)]"
    | (Product) arg where "v = PDict [(''$product'', arg)]"
    | (Zip) arg where "v = PDict [(''$zip'', arg)]"
    | (Env) arg where "v = PDict [(''$env'', arg)]"
proof -
  from assms obtain key arg where v: "v = PDict [(key, arg)]" and "operator_key key"
    by (induction v rule: operator_node.induct) simp_all
  then have "key = ''$ref'' \<or> key = ''$range'' \<or> key = ''$+'' \<or> key = ''$product'' \<or>
             key = ''$zip'' \<or> key = ''$env''"
    by (simp only: operator_key_def list.set insert_iff empty_iff simp_thms)
  with v that show thesis by (elim disjE) (simp_all only:)
qed

lemma operator_calls_plain: "\<not> operator_node v \<Longrightarrow> operator_calls R v = None"
  by (induction v rule: operator_node.induct)
     (auto simp: OPS_CALLS_def operator_key_def)

lemma walker_calls_operator:
  "walker_calls R s (PDict [(''$ref'', arg)]) = ref_calls R s arg"
  "walker_calls R s (PDict [(''$range'', arg)]) = []"
  "walker_calls R s (PDict [(''$+'', arg)]) = concat_calls R s arg"
  "walker_calls R s (PDict [(''$product'', arg)]) = product_calls R s arg"
  "walker_calls R s (PDict [(''$zip'', arg)]) = zip_calls R s arg"
  "walker_calls R s (PDict [(''$env'', arg)]) = []"
  by (simp_all add: walker_calls_def OPS_CALLS_def)

lemma walker_calls_plain:
  "\<not> operator_node v \<Longrightarrow>
     walker_calls R s v =
       (if is_list_like v then each_calls R s (iter v)
        else (case v of PDict d \<Rightarrow> each_calls R s (map snd d) | _ \<Rightarrow> []))"
  by (simp add: walker_calls_def operator_calls_plain)

lemma resolve_plain_node:
  "\<not> operator_node v \<Longrightarrow>
     resolve H (Suc n) s v =
       (if is_list_like v then
          (case resolve_each (resolve H n) s (iter v) of
             Inl e \<Rightarrow> Inl e | Inr (vs, s1) \<Rightarrow> Inr (PList vs, s1))
        else
          (case v of
             PDict d \<Rightarrow>
               (case resolve_each (resolve H n) s (map snd d) of
                  Inl e \<Rightarrow> Inl e | Inr (vs, s1) \<Rightarrow> Inr (PDict (zip (map fst d) vs), s1))
           | _ \<Rightarrow> Inr (v, s)))"
  by (simp add: operator_of_plain)

lemma subcall_error:
  assumes "(n', s', v') \<in> set (subcalls H (n, s, v))" and "resolve H n' s' v' = Inl e"
  shows "resolve H n s v = Inl e"
proof (cases n)
  case 0
  with assms(1) show ?thesis by simp
next
  case (Suc m)
  with assms(1) have "(n', s', v') \<in> (\<lambda>c. (m, fst c, snd c)) ` set (walker_calls (resolve H m) s v)"
    by (simp only: subcalls.simps set_map)
  then obtain c where c: "c \<in> set (walker_calls (resolve H m) s v)"
    and eq: "(n', s', v') = (m, fst c, snd c)"
    by (rule imageE)
  from eq have m: "n' = m" and "c = (s', v')"
    by (simp_all only: prod.inject prod.collapse)
  with c have w: "(s', v') \<in> set (walker_calls (resolve H m) s v)"
    by (simp only:)
  from assms(2) m have e: "resolve H m s' v' = Inl e" by (simp only:)
  show ?thesis
  proof (cases "operator_node v")
    case True
    then show ?thesis
    proof (cases rule: operator_node_cases)
      case (Ref arg)
      with w have "(s', v') \<in> set (ref_calls (resolve H m) s arg)"
        by (simp only: walker_calls_operator)
      from ref_calls_error [OF this e] show ?thesis
        unfolding Suc Ref by (simp only: resolve_operator)
    next
      case (Range arg)
      with w show ?thesis by (simp only: walker_calls_operator list.set empty_iff)
    next
      case (Concat arg)
      with w have "(s', v') \<in> set (concat_calls (resolve H m) s arg)"
        by (simp only: walker_calls_operator)
      from concat_calls_error [OF this e] show ?thesis
        unfolding Suc Concat by (simp only: resolve_operator)
    next
      case (Product arg)
      with w have "(s', v') \<in> set (product_calls (resolve H m) s arg)"
        by (simp only: walker_calls_operator)
      from product_calls_error [OF this e] show ?thesis
        unfolding Suc Product by (simp only: resolve_operator)
    next
      case (Zip arg)
      with w have "(s', v') \<in> set (zip_calls (resolve H m) s arg)"
        by (simp only: walker_calls_operator)
      from zip_calls_error [OF this e] show ?thesis
        unfolding Suc Zip by (simp only: resolve_operator)
    next
      case (Env arg)
      with w show ?thesis by (simp only: walker_calls_operator list.set empty_iff)
    qed
  next
    case False
    show ?thesis
    proof (cases "is_list_like v")
      case True
      with False w have "(s', v') \<in> set (each_calls (resolve H m) s (iter v))"
        by (simp add: walker_calls_plain)
      from each_calls_error [OF this e] False True show ?thesis
        unfolding Suc by (simp add: resolve_plain_node del: resolve.simps)
    next
      case nl: False
      with False w obtain d where d: "v = PDict d"
        and "(s', v') \<in> set (each_calls (resolve H m) s (map snd d))"
        by (auto simp: walker_calls_plain split: pyval.splits)
      from each_calls_error [OF this(2) e] False nl d show ?thesis
        unfolding Suc by (simp add: resolve_plain_node del: resolve.simps)
    qed
  qed
qed

lemma ref_key_Some: "ref_key (n, s, v) = Some k \<longleftrightarrow> v = PDict [(''$ref'', PStr k)]"
  by (cases "(n, s, v)" rule: ref_key.cases) (auto split: if_splits)

lemma ref_key_None: "ref_key (n, s, v) = None \<longleftrightarrow> (\<forall>k. v \<noteq> PDict [(''$ref'', PStr k)])"
  using ref_key_Some [of n s v] by (cases "ref_key (n, s, v)") auto

lemma ref_calls_state:
  "(s', x) \<in> set (ref_calls R s key) \<Longrightarrow>
     \<exists>k. key = PStr k \<and> k \<notin> resolving s \<and> is_None (map_of (computed s) k) \<and>
         s' = s\<lparr>resolving := insert k (resolving s)\<rparr> \<and> subscript (toplevel s) k = Inr x"
  by (auto simp: ref_calls_def Let_def split: pyval.splits if_splits sum.splits)

lemma map_list_like_calls_extends:
  assumes R: "\<forall>s v r s'. R s v = Inr (r, s') \<longrightarrow> extends s s'"
  shows "(s', x) \<in> set (map_list_like_calls R s a) \<Longrightarrow> extends s s'"
  using each_calls_extends [of R, OF R]
  by (auto simp: map_list_like_calls_def split: if_splits)

lemma concat_calls_extends:
  assumes R: "\<forall>s v r s'. R s v = Inr (r, s') \<longrightarrow> extends s s'"
  shows "(s', x) \<in> set (concat_calls R s a) \<Longrightarrow> extends s s'"
  using map_list_like_calls_extends [of R, OF R]
  by (auto simp: concat_calls_def split: if_splits)

lemma zip_calls_extends:
  assumes R: "\<forall>s v r s'. R s v = Inr (r, s') \<longrightarrow> extends s s'"
  shows "(s', x) \<in> set (zip_calls R s a) \<Longrightarrow> extends s s'"
  using each_calls_extends [of R, OF R]
  by (auto simp: zip_calls_def split: if_splits)

lemma product_calls_extends:
  assumes R: "\<forall>s v r s'. R s v = Inr (r, s') \<longrightarrow> extends s s'"
    and c: "(s', x) \<in> set (product_calls R s a)"
  shows "extends s s'"
proof (cases "(s', x) = (s, a)")
  case True
  then show ?thesis by (simp add: extends_refl)
next
  case False
  with c obtain args s1 b where 1: "R s a = Inr (args, s1)"
    and 2: "(s', x) \<in> set (map_list_like_calls R s1 b)"
    by (cases "R s a") (auto simp: product_calls_def split: if_splits pyval.splits)
  from R [rule_format, OF 1] map_list_like_calls_extends [of R, OF R 2]
  show ?thesis by (rule extends_trans)
qed

lemma subcall_state:
  assumes "(n', s', v') \<in> set (subcalls H (n, s, v))"
  shows "n = Suc n' \<and>
         ((ref_key (n, s, v) = None \<and> extends s s') \<or>
          (\<exists>k. ref_key (n, s, v) = Some k \<and> k \<notin> resolving s \<and>
               is_None (map_of (computed s) k) \<and>
               s' = s\<lparr>resolving := insert k (resolving s)\<rparr> \<and>
               subscript (toplevel s) k = Inr v'))"
proof (cases n)
  case 0
  with assms show ?thesis by simp
next
  case (Suc m)
  with assms have "(n', s', v') \<in> (\<lambda>c. (m, fst c, snd c)) ` set (walker_calls (resolve H m) s v)"
    by (simp only: subcalls.simps set_map)
  then obtain c where c: "c \<in> set (walker_calls (resolve H m) s v)"
    and eq: "(n', s', v') = (m, fst c, snd c)"
    by (rule imageE)
  from eq have m: "n' = m" and "c = (s', v')"
    by (simp_all only: prod.inject prod.collapse)
  with c have w: "(s', v') \<in> set (walker_calls (resolve H m) s v)"
    by (simp only:)
  have R: "\<forall>s v r s'. resolve H m s v = Inr (r, s') \<longrightarrow> extends s s'"
    using extends_resolve by blast
  have n: "n = Suc n'" using Suc m by simp
  show ?thesis
  proof (cases "operator_node v")
    case True
    then show ?thesis
    proof (cases rule: operator_node_cases)
      case (Ref arg)
      with w have "(s', v') \<in> set (ref_calls (resolve H m) s arg)"
        by (simp only: walker_calls_operator)
      from ref_calls_state [OF this] obtain k where "arg = PStr k" "k \<notin> resolving s"
        "is_None (map_of (computed s) k)" "s' = s\<lparr>resolving := insert k (resolving s)\<rparr>"
        "subscript (toplevel s) k = Inr v'"
        by blast
      with Ref n show ?thesis by (simp add: ref_key_Some)
    next
      case (Range arg)
      with w show ?thesis by (simp only: walker_calls_operator list.set empty_iff)
    next
      case (Concat arg)
      with w have "(s', v') \<in> set (concat_calls (resolve H m) s arg)"
        by (simp only: walker_calls_operator)
      from concat_calls_extends [OF R this] Concat n show ?thesis
        by (simp add: ref_key_None)
    next
      case (Product arg)
      with w have "(s', v') \<in> set (product_calls (resolve H m) s arg)"
        by (simp only: walker_calls_operator)
      from product_calls_extends [OF R this] Product n show ?thesis
        by (simp add: ref_key_None)
    next
      case (Zip arg)
      with w have "(s', v') \<in> set (zip_calls (resolve H m) s arg)"
        by (simp only: walker_calls_operator)
      from zip_calls_extends [OF R this] Zip n show ?thesis
        by (simp add: ref_key_None)
    next
      case (Env arg)
      with w show ?thesis by (simp only: walker_calls_operator list.set empty_iff)
    qed
  next
    case False
    then have nr: "ref_key (n, s, v) = None"
      by (auto simp: ref_key_None operator_key_def)
    have "extends s s'"
    proof (cases "is_list_like v")
      case True
      with False w have "(s', v') \<in> set (each_calls (resolve H m) s (iter v))"
        by (simp add: walker_calls_plain)
      then show ?thesis by (rule each_calls_extends [OF R])
    next
      case nl: False
      with False w obtain d where d: "v = PDict d"
        and "(s', v') \<in> set (each_calls (resolve H m) s (map snd d))"
        by (auto simp: walker_calls_plain split: pyval.splits)
      from this(2) show ?thesis by (rule each_calls_extends [OF R])
    qed
    with nr n show ?thesis by simp
  qed
qed

lemma build_template_initial:
  "build_template H fuel template environment0 =
     (case resolve H fuel (initial_state H template environment0) template of
        Inl e \<Rightarrow> Inl e | Inr (v, s) \<Rightarrow> Inr v)"
  by (simp add: build_template_def initial_state_def)

lemma stack_error:
  "stack H cs \<Longrightarrow> resolve H (fst (last cs)) (state_of (last cs)) (snd (snd (last cs))) = Inl e \<Longrightarrow>
     resolve H (fst (hd cs)) (state_of (hd cs)) (snd (snd (hd cs))) = Inl e"
proof (induction H cs rule: stack.induct)
  case (1 H)
  then show ?case by simp
next
  case (2 H c)
  then show ?case by simp
next
  case (3 H c c' cs)
  then have "resolve H (fst c') (state_of c') (snd (snd c')) = Inl e" by simp
  moreover from "3.prems"(1) have "(fst c', state_of c', snd (snd c')) \<in> set (subcalls H (fst c, state_of c, snd (snd c)))"
    by (simp add: state_of_def)
  ultimately have "resolve H (fst c) (state_of c) (snd (snd c)) = Inl e"
    by (rule subcall_error [rotated])
  then show ?case by simp
qed

lemma stack_resolving:
  "stack H cs \<Longrightarrow>
     resolving (state_of (last cs)) =
       resolving (state_of (hd cs)) \<union> {j. \<exists>c \<in> set (butlast cs). ref_key c = Some j}"
proof (induction H cs rule: stack.induct)
  case (1 H)
  then show ?case by simp
next
  case (2 H c)
  then show ?case by simp
next
  case (3 H c c' cs)
  from "3.prems" have sub: "(fst c', state_of c', snd (snd c')) \<in> set (subcalls H (fst c, state_of c, snd (snd c)))"
    by (simp add: state_of_def)
  have step: "resolving (state_of c') =
      resolving (state_of c) \<union> (case ref_key c of None \<Rightarrow> {} | Some j \<Rightarrow> {j})"
    using subcall_state [OF sub] by (auto simp: state_of_def extends_def)
  from "3.IH" "3.prems" have
    "resolving (state_of (last (c' # cs))) =
       resolving (state_of c') \<union> {j. \<exists>x \<in> set (butlast (c' # cs)). ref_key x = Some j}"
    by simp
  with step show ?case by (auto split: option.splits)
qed

lemma stack_consistent:
  "stack H cs \<Longrightarrow> \<forall>j \<in> resolving (state_of (hd cs)). is_None (map_of (computed (state_of (hd cs))) j) \<Longrightarrow>
     \<forall>j \<in> resolving (state_of (last cs)). is_None (map_of (computed (state_of (last cs))) j)"
proof (induction H cs rule: stack.induct)
  case (1 H)
  then show ?case by simp
next
  case (2 H c)
  then show ?case by simp
next
  case (3 H c c' cs)
  from "3.prems" have sub: "(fst c', state_of c', snd (snd c')) \<in> set (subcalls H (fst c, state_of c, snd (snd c)))"
    by (simp add: state_of_def)
  have "\<forall>j \<in> resolving (state_of c'). is_None (map_of (computed (state_of c')) j)"
  proof
    fix j assume j: "j \<in> resolving (state_of c')"
    from subcall_state [OF sub] consider
        (walk) "extends (state_of c) (state_of c')"
      | (ref) k where "k \<notin> resolving (state_of c)" "is_None (map_of (computed (state_of c)) k)"
          "state_of c' = (state_of c)\<lparr>resolving := insert k (resolving (state_of c))\<rparr>"
      by (auto simp: state_of_def)
    then show "is_None (map_of (computed (state_of c')) j)"
    proof cases
      case walk
      then obtain new where new: "computed (state_of c') = new @ computed (state_of c)"
        "\<forall>entry \<in> set new. fst entry \<notin> resolving (state_of c)"
        and rs: "resolving (state_of c') = resolving (state_of c)"
        by (auto simp: extends_def)
      from j rs have j': "j \<in> resolving (state_of c)" by simp
      with new(2) have "map_of new j = None"
        by (metis map_of_eq_None_iff image_iff)
      then have "map_of (computed (state_of c')) j = map_of (computed (state_of c)) j"
        by (simp add: new(1) map_add_def)
      with "3.prems"(2) j' show ?thesis by simp
    next
      case ref
      with j "3.prems"(2) show ?thesis by auto
    qed
  qed
  with "3.IH" "3.prems" show ?case by simp
qed

lemma subcalls_determine:
  assumes "\<forall>c \<in> set (walker_calls (resolve H n) s v).
             resolve H n (fst c) (snd c) = resolve H m (fst c) (snd c)"
  shows "resolve H (Suc n) s v = resolve H (Suc m) s v"
proof (cases "operator_node v")
  case True
  then show ?thesis
  proof (cases rule: operator_node_cases)
    case (Ref arg)
    with assms ref_calls_determine [of "resolve H n" s arg "resolve H m"] show ?thesis
      by (simp add: resolve_operator walker_calls_operator del: resolve.simps)
  next
    case (Range arg)
    then show ?thesis by (simp add: resolve_operator del: resolve.simps)
  next
    case (Concat arg)
    with assms concat_calls_determine [of "resolve H n" s arg "resolve H m"] show ?thesis
      by (simp add: resolve_operator walker_calls_operator del: resolve.simps)
  next
    case (Product arg)
    with assms product_calls_determine [of "resolve H n" s arg "resolve H m"] show ?thesis
      by (simp add: resolve_operator walker_calls_operator del: resolve.simps)
  next
    case (Zip arg)
    with assms zip_calls_determine [of "resolve H n" s arg "resolve H m"] show ?thesis
      by (simp add: resolve_operator walker_calls_operator del: resolve.simps)
  next
    case (Env arg)
    then show ?thesis by (simp add: resolve_operator del: resolve.simps)
  qed
next
  case False
  show ?thesis
  proof (cases "is_list_like v")
    case True
    with assms False each_calls_determine [of "resolve H n" s "iter v" "resolve H m"]
    show ?thesis
      by (simp add: resolve_plain_node walker_calls_plain del: resolve.simps)
  next
    case no: False
    show ?thesis
    proof (cases "\<exists>d. v = PDict d")
      case True
      then obtain d where d: "v = PDict d" ..
      with assms False no each_calls_determine [of "resolve H n" s "map snd d" "resolve H m"]
      show ?thesis
        by (simp add: resolve_plain_node walker_calls_plain del: resolve.simps)
    next
      case other: False
      with False no show ?thesis
        by (cases v) (simp_all add: resolve_plain_node del: resolve.simps)
    qed
  qed
qed

section \<open>Cycles\<close>

lemma resolve_ref_cycle:
  "k \<in> resolving s \<Longrightarrow> is_None (map_of (computed s) k) \<Longrightarrow>
     resolve_ref R s (PStr k) = Inl (RefCycle k)"
  by (simp add: resolve_ref_def)

lemma resolve_ref_enter:
  assumes "k \<notin> resolving s" and "is_None (map_of (computed s) k)"
    and "toplevel s = PDict d" and "map_of d k = Some t"
    and "R (s\<lparr>resolving := insert k (resolving s)\<rparr>) t = Inl e"
  shows "resolve_ref R s (PStr k) = Inl e"
  using assms by (simp add: resolve_ref_def)

lemma ref_chain_cycle:
  assumes "ref_chain d ks target"
    and "toplevel s = PDict d"
    and "distinct ks"
    and "target \<in> set ks \<union> resolving s"
    and "\<forall>k \<in> set ks. k \<notin> resolving s \<and> is_None (map_of (computed s) k)"
    and "is_None (map_of (computed s) target)"
    and "length ks \<le> n"
  shows "resolve H (Suc n) s (PDict [(''$ref'', PStr (hd ks))]) = Inl (RefCycle target)"
  using assms
proof (induction d ks target arbitrary: s n rule: ref_chain.induct)
  case (1 d target)
  then show ?case by simp
next
  case (2 d k target)
  let ?s1 = "s\<lparr>resolving := insert k (resolving s)\<rparr>"
  from "2.prems" obtain m where n: "n = Suc m" by (cases n) auto
  have "target \<in> resolving ?s1" using "2.prems"(4) by auto
  moreover have "is_None (map_of (computed ?s1) target)" using "2.prems"(6) by simp
  ultimately have "resolve_ref (resolve H m) ?s1 (PStr target) = Inl (RefCycle target)"
    by (rule resolve_ref_cycle)
  then have "resolve H n ?s1 (PDict [(''$ref'', PStr target)]) = Inl (RefCycle target)"
    unfolding n by (simp only: resolve_ref_operator)
  moreover have "k \<notin> resolving s" "is_None (map_of (computed s) k)"
    using "2.prems"(5) by simp_all
  moreover have "map_of d k = Some (PDict [(''$ref'', PStr target)])"
    using "2.prems"(1) by simp
  ultimately have "resolve_ref (resolve H n) s (PStr k) = Inl (RefCycle target)"
    using "2.prems"(2) by (intro resolve_ref_enter) simp_all
  then show ?case by (simp only: resolve_ref_operator list.sel)
next
  case (3 d k k' ks target)
  let ?s1 = "s\<lparr>resolving := insert k (resolving s)\<rparr>"
  from "3.prems" obtain m where n: "n = Suc m" by (cases n) auto
  have "resolve H (Suc m) ?s1 (PDict [(''$ref'', PStr (hd (k' # ks)))]) = Inl (RefCycle target)"
  proof (rule "3.IH")
    show "ref_chain d (k' # ks) target" using "3.prems"(1) by simp
    show "toplevel ?s1 = PDict d" using "3.prems"(2) by simp
    show "distinct (k' # ks)" using "3.prems"(3) by simp
    show "target \<in> set (k' # ks) \<union> resolving ?s1" using "3.prems"(4) by auto
    show "\<forall>j \<in> set (k' # ks). j \<notin> resolving ?s1 \<and> is_None (map_of (computed ?s1) j)"
      using "3.prems"(3,5) by auto
    show "is_None (map_of (computed ?s1) target)" using "3.prems"(6) by simp
    show "length (k' # ks) \<le> m" using "3.prems"(7) n by simp
  qed
  then have "resolve H n ?s1 (PDict [(''$ref'', PStr k')]) = Inl (RefCycle target)"
    unfolding n by simp
  moreover have "k \<notin> resolving s" "is_None (map_of (computed s) k)"
    using "3.prems"(5) by simp_all
  moreover have "map_of d k = Some (PDict [(''$ref'', PStr k')])"
    using "3.prems"(1) by simp
  ultimately have "resolve_ref (resolve H n) s (PStr k) = Inl (RefCycle target)"
    using "3.prems"(2) by (intro resolve_ref_enter) simp_all
  then show ?case by (simp only: resolve_ref_operator list.sel)
qed

lemma build_ref_chain_cycle:
  assumes "ref_chain d ks target" and "distinct ks" and "target \<in> set ks"
    and "d = (k0, PDict [(''$ref'', PStr (hd ks))]) # rest" and "rest \<noteq> []"
    and "length ks \<le> n"
  shows "build_template H (Suc (Suc n)) (PDict d) environment0 = Inl (RefCycle target)"
proof -
  define env where "env = (case environment0 of None \<Rightarrow> os_environ H
                           | Some e \<Rightarrow> if e \<noteq> [] then e else os_environ H)"
  define s where "s = \<lparr>toplevel = PDict d, computed = [], resolving = {}, environment = env\<rparr>"
  have "resolve H (Suc n) s (PDict [(''$ref'', PStr (hd ks))]) = Inl (RefCycle target)"
    using assms(1,2,3,6) by (intro ref_chain_cycle [of d ks target s n H]) (simp_all add: s_def)
  then have "resolve_each (resolve H (Suc n)) s (map snd d) = Inl (RefCycle target)"
    by (simp add: assms(4) del: resolve.simps)
  moreover have "operator_of H (resolve H (Suc n)) (PDict d) = None"
    using assms(4,5) by (cases rest) simp_all
  ultimately have "resolve H (Suc (Suc n)) s (PDict d) = Inl (RefCycle target)"
    by (simp add: is_list_like_def)
  then show ?thesis
    unfolding build_template_def s_def env_def by (simp del: resolve.simps)
qed

text \<open>
  C4.  Take any template and any call stack of its build, the call of \<open>build_template\<close>
  on the template outermost, that ends in a call on a reference to a key \<open>k\<close> while an
  earlier call on the stack is a call on a reference to \<open>k\<close> as well: the resolution of
  \<open>k\<close> is in progress and a chain of calls has come back to it, through whatever nodes
  and however long.  Then \<open>k\<close> is in the resolving set and the build fails with the cycle
  error that names \<open>k\<close>.  Along every call stack the resolving set is what it was for the
  outermost call, nothing for a build, together with the keys of the references whose
  calls are on the stack below the innermost: a key is in the set exactly while its own
  resolution is in progress.  At the bottom of this is the test itself: a reference to a
  key that is being resolved, and has no value in the cache, fails with the cycle error
  naming the key.  And a call of the walker that returns leaves the resolving set as it
  found it, and keeps keys that are being resolved out of the cache.
\<close>

theorem ref_cycle_detected:
  "(stack H cs \<and> hd cs = (fuel, initial_state H template environment0, template) \<and>
    last cs = (Suc n, s, PDict [(''$ref'', PStr k)]) \<and>
    (\<exists>c \<in> set (butlast cs). ref_key c = Some k) \<longrightarrow>
      k \<in> resolving s \<and>
      build_template H fuel template environment0 = Inl (RefCycle k)) \<and>
   (stack H cs \<longrightarrow>
      resolving (state_of (last cs)) =
        resolving (state_of (hd cs)) \<union> {j. \<exists>c \<in> set (butlast cs). ref_key c = Some j}) \<and>
   (k \<in> resolving s \<and> is_None (map_of (computed s) k) \<longrightarrow>
      resolve H (Suc n) s (PDict [(''$ref'', PStr k)]) = Inl (RefCycle k)) \<and>
   (resolve H n s v = Inr (r, s') \<longrightarrow>
      resolving s' = resolving s \<and>
      ((\<forall>j \<in> resolving s. is_None (map_of (computed s) j)) \<longrightarrow>
       (\<forall>j \<in> resolving s'. is_None (map_of (computed s') j))))"
proof (intro conjI impI)
  assume a: "stack H cs \<and> hd cs = (fuel, initial_state H template environment0, template) \<and>
    last cs = (Suc n, s, PDict [(''$ref'', PStr k)]) \<and>
    (\<exists>c \<in> set (butlast cs). ref_key c = Some k)"
  then have st: "stack H cs" and hd: "state_of (hd cs) = initial_state H template environment0"
    and last: "state_of (last cs) = s"
    by (simp_all add: state_of_def)
  from stack_resolving [OF st] a hd last show k: "k \<in> resolving s"
    by (auto simp: initial_state_def)
  have "\<forall>j \<in> resolving (state_of (hd cs)). is_None (map_of (computed (state_of (hd cs))) j)"
    by (simp add: hd initial_state_def)
  from stack_consistent [OF st this] k last have "is_None (map_of (computed s) k)"
    by simp
  with k have "resolve H (Suc n) s (PDict [(''$ref'', PStr k)]) = Inl (RefCycle k)"
    by (simp add: resolve_ref_operator resolve_ref_cycle del: resolve.simps)
  with a have "resolve H (fst (last cs)) (state_of (last cs)) (snd (snd (last cs)))
      = Inl (RefCycle k)"
    by (simp add: state_of_def del: resolve.simps)
  from stack_error [OF st this] a
  have "resolve H fuel (initial_state H template environment0) template = Inl (RefCycle k)"
    by (simp add: state_of_def del: resolve.simps)
  then show "build_template H fuel template environment0 = Inl (RefCycle k)"
    by (simp add: build_template_initial)
next
  assume "stack H cs"
  then show "resolving (state_of (last cs)) =
        resolving (state_of (hd cs)) \<union> {j. \<exists>c \<in> set (butlast cs). ref_key c = Some j}"
    by (rule stack_resolving)
next
  assume "k \<in> resolving s \<and> is_None (map_of (computed s) k)"
  then show "resolve H (Suc n) s (PDict [(''$ref'', PStr k)]) = Inl (RefCycle k)"
    by (simp add: resolve_ref_operator resolve_ref_cycle del: resolve.simps)
next
  assume "resolve H n s v = Inr (r, s')"
  then have e: "extends s s'" by (rule extends_resolve)
  then show "resolving s' = resolving s" by (simp add: extends_def)
  assume c: "\<forall>j \<in> resolving s. is_None (map_of (computed s) j)"
  from e obtain new where new: "computed s' = new @ computed s"
    "\<forall>entry \<in> set new. fst entry \<notin> resolving s" and rs: "resolving s' = resolving s"
    by (auto simp: extends_def)
  show "\<forall>j \<in> resolving s'. is_None (map_of (computed s') j)"
  proof
    fix j assume "j \<in> resolving s'"
    with rs have j: "j \<in> resolving s" by simp
    with new(2) have "map_of new j = None"
      by (metis map_of_eq_None_iff image_iff)
    then have "map_of (computed s') j = map_of (computed s) j"
      by (simp add: new(1) map_add_def)
    with c j show "is_None (map_of (computed s') j)" by simp
  qed
qed

theorem ref_cycle_detected_witness:
  "stack example_host cycle_stack \<and>
   build_template example_host 6 cycle_template None = Inl (RefCycle ''b'') \<and>
   stack example_host self_cycle_stack \<and>
   build_template example_host 3 self_cycle_template None = Inl (RefCycle ''a'') \<and>
   stack example_host concat_cycle_stack \<and>
   build_template example_host 7 concat_cycle_template None = Inl (RefCycle ''b'') \<and>
   resolving (state_of (last cycle_stack)) = {''a'', ''b''}"
proof -
  have 1: "stack example_host cycle_stack \<and>
      hd cycle_stack = (6, initial_state example_host cycle_template None, cycle_template) \<and>
      last cycle_stack
        = (Suc 0, cycle_state cycle_template {''a'', ''b''}, PDict [(''$ref'', PStr ''b'')]) \<and>
      (\<exists>c \<in> set (butlast cycle_stack). ref_key c = Some ''b'')"
    by code_simp
  have 2: "stack example_host self_cycle_stack \<and>
      hd self_cycle_stack
        = (3, initial_state example_host self_cycle_template None, self_cycle_template) \<and>
      last self_cycle_stack
        = (Suc 0, cycle_state self_cycle_template {''a''}, PDict [(''$ref'', PStr ''a'')]) \<and>
      (\<exists>c \<in> set (butlast self_cycle_stack). ref_key c = Some ''a'')"
    by code_simp
  have 3: "stack example_host concat_cycle_stack \<and>
      hd concat_cycle_stack
        = (7, initial_state example_host concat_cycle_template None, concat_cycle_template) \<and>
      last concat_cycle_stack
        = (Suc 1, cycle_state concat_cycle_template {''a'', ''b''},
           PDict [(''$ref'', PStr ''b'')]) \<and>
      (\<exists>c \<in> set (butlast concat_cycle_stack). ref_key c = Some ''b'')"
    by code_simp
  have 4: "resolving (state_of (hd cycle_stack)) \<union>
      {j. \<exists>c \<in> set (butlast cycle_stack). ref_key c = Some j} = {''a'', ''b''}"
    by (auto simp: cycle_stack_def cycle_state_def cycle_template_def initial_state_def
        state_of_def)
  from ref_cycle_detected [where H = example_host and cs = cycle_stack and fuel = 6
      and template = cycle_template and ?environment0.0 = None and n = 0
      and s = "cycle_state cycle_template {''a'', ''b''}" and k = "''b''"] 1
  have "build_template example_host 6 cycle_template None = Inl (RefCycle ''b'')"
    and "resolving (state_of (last cycle_stack)) =
      resolving (state_of (hd cycle_stack)) \<union>
      {j. \<exists>c \<in> set (butlast cycle_stack). ref_key c = Some j}"
    by blast+
  moreover from ref_cycle_detected [where H = example_host and cs = self_cycle_stack
      and fuel = 3 and template = self_cycle_template and ?environment0.0 = None and n = 0
      and s = "cycle_state self_cycle_template {''a''}" and k = "''a''"] 2
  have "build_template example_host 3 self_cycle_template None = Inl (RefCycle ''a'')"
    by blast
  moreover from ref_cycle_detected [where H = example_host and cs = concat_cycle_stack
      and fuel = 7 and template = concat_cycle_template and ?environment0.0 = None and n = 1
      and s = "cycle_state concat_cycle_template {''a'', ''b''}" and k = "''b''"] 3
  have "build_template example_host 7 concat_cycle_template None = Inl (RefCycle ''b'')"
    by blast
  ultimately show ?thesis using 1 2 3 4 by simp
qed

section \<open>Memoization\<close>

text \<open>
  The claim C1 as stated fails: \<open>b\<close> is bound to \<open>None\<close> and referenced twice, and its
  entry is resolved twice, once for each reference: the cache holds two stores for it.
\<close>

theorem ref_to_None_resolved_again:
  "(case resolve example_host 4
           (example_state (PDict [(''a'', PList [PDict [(''$ref'', PStr ''b'')],
                                                 PDict [(''$ref'', PStr ''b'')]]),
                                  (''b'', PNone)]) [])
           (PDict [(''a'', PList [PDict [(''$ref'', PStr ''b'')],
                                  PDict [(''$ref'', PStr ''b'')]]),
                   (''b'', PNone)]) of
      Inl e \<Rightarrow> Inl e
    | Inr (r, s') \<Rightarrow> Inr (r, stores ''b'' (computed s')))
   = Inr (PDict [(''a'', PList [PNone, PNone]), (''b'', PNone)], [PNone, PNone])"
  by code_simp

lemma stored_once_count:
  "stored_once c \<Longrightarrow> length (filter (\<lambda>w. w \<noteq> PNone) (stores k c)) \<le> 1"
proof (induction c)
  case Nil
  then show ?case by (simp add: stores_def)
next
  case (Cons entry c)
  show ?case
  proof (cases "fst entry = k")
    case True
    with Cons.prems have "\<forall>w \<in> set (stores k c). w = PNone"
      by (auto simp: stores_def)
    then have "filter (\<lambda>w. w \<noteq> PNone) (stores k c) = []"
      by (simp add: filter_empty_conv)
    with True show ?thesis by (simp add: stores_def)
  next
    case False
    with Cons show ?thesis by (simp add: stores_def)
  qed
qed

lemma stored_once_cached:
  "stored_once c \<Longrightarrow> map_of c k = Some w \<Longrightarrow> w \<noteq> PNone \<Longrightarrow>
     filter (\<lambda>w. w \<noteq> PNone) (stores k c) = [w]"
proof (induction c)
  case Nil
  then show ?case by simp
next
  case (Cons entry c)
  show ?case
  proof (cases "fst entry = k")
    case True
    with Cons.prems have w: "snd entry = w" by (cases entry) simp
    from True Cons.prems have "\<forall>v \<in> set (stores k c). v = PNone"
      by (auto simp: stores_def)
    then have "filter (\<lambda>w. w \<noteq> PNone) (stores k c) = []"
      by (simp add: filter_empty_conv)
    with True w Cons.prems(3) show ?thesis by (simp add: stores_def)
  next
    case False
    with Cons show ?thesis by (cases entry) (simp add: stores_def)
  qed
qed

lemma stores_append: "stores k (new @ c) = stores k new @ stores k c"
  by (simp add: stores_def)

lemma stores_absent: "\<forall>entry \<in> set new. fst entry \<noteq> k \<Longrightarrow> stores k new = []"
  by (auto simp: stores_def filter_empty_conv)

lemma resolve_ref_miss_stores:
  assumes "resolve H (Suc n) s (PDict [(''$ref'', PStr k)]) = Inr (r, s')"
    and "is_None (map_of (computed s) k)"
  shows "stores k (computed s') = r # stores k (computed s)"
proof -
  let ?s1 = "s\<lparr>resolving := insert k (resolving s)\<rparr>"
  from assms(1) have res: "resolve_ref (resolve H n) s (PStr k) = Inr (r, s')"
    by (simp only: resolve_ref_operator)
  with assms(2) obtain t s2 where
    r: "resolve H n ?s1 t = Inr (r, s2)" and
    s': "s' = s2\<lparr>resolving := resolving s2 - {k}, computed := (k, r) # computed s2\<rparr>"
    by (auto simp: resolve_ref_def Let_def split: if_splits sum.splits prod.splits)
  from extends_resolve [OF r] obtain new where
    new: "computed s2 = new @ computed s" "\<forall>entry \<in> set new. fst entry \<notin> insert k (resolving s)"
    by (auto simp: extends_def)
  from new(2) have "stores k new = []"
    by (intro stores_absent) auto
  with new(1) s' show ?thesis by (simp add: stores_append) (simp add: stores_def)
qed

text \<open>
  C1, amended.  A reference to a key whose cached value is not \<open>None\<close> returns that value,
  leaves the state as it is and makes no call of the walker.  A reference to a key that
  has no cached value other than \<open>None\<close> and is not being resolved makes one call of the
  walker, on the toplevel entry of the key; when the reference returns, its result is in
  the cache under its key, as one more store for the key.  In every state that a call of
  the walker returns, begun in a state where it was so (the empty cache of a new build
  is one), no key has more than one store of a value other than \<open>None\<close>, and a key cached
  with a value other than \<open>None\<close> has that one store of such a value: references resolve
  the entry of a key again only when it resolved to \<open>None\<close> before, and exactly once
  when it resolves to anything else.  The walker itself does not read the cache: a call
  on a mapping that is no operator node, as the call of a build on the toplevel mapping,
  calls the walker on every value of the mapping, so the entry of a referenced key is
  walked once more by the build's own pass.
\<close>

theorem ref_memoized_unless_None:
  "(map_of (computed s) k = Some v \<and> v \<noteq> PNone \<longrightarrow>
      resolve H (Suc n) s (PDict [(''$ref'', PStr k)]) = Inr (v, s) \<and>
      subcalls H (Suc n, s, PDict [(''$ref'', PStr k)]) = []) \<and>
   (is_None (map_of (computed s) k) \<and> k \<notin> resolving s \<and> toplevel s = PDict d \<and>
    map_of d k = Some t \<longrightarrow>
      subcalls H (Suc n, s, PDict [(''$ref'', PStr k)])
        = [(n, s\<lparr>resolving := insert k (resolving s)\<rparr>, t)]) \<and>
   (resolve H (Suc n) s (PDict [(''$ref'', PStr k)]) = Inr (r, s') \<longrightarrow>
      map_of (computed s') k = Some r \<and>
      (is_None (map_of (computed s) k) \<longrightarrow> stores k (computed s') = r # stores k (computed s))) \<and>
   (resolve H n s v0 = Inr (r0, s0) \<and> stored_once (computed s) \<longrightarrow>
      stored_once (computed s0) \<and>
      (\<forall>key. length (filter (\<lambda>w. w \<noteq> PNone) (stores key (computed s0))) \<le> 1) \<and>
      (\<forall>key w. map_of (computed s0) key = Some w \<and> w \<noteq> PNone \<longrightarrow>
                filter (\<lambda>w. w \<noteq> PNone) (stores key (computed s0)) = [w])) \<and>
   (resolve H (Suc n) s (PDict d) = Inr (r1, s1) \<and> \<not> operator_node (PDict d) \<longrightarrow>
      map (\<lambda>c. snd (snd c)) (subcalls H (Suc n, s, PDict d)) = map snd d)"
proof (intro conjI impI allI)
  assume "map_of (computed s) k = Some v \<and> v \<noteq> PNone"
  then have hit: "map_of (computed s) k = Some v" "\<not> is_None (map_of (computed s) k)"
    by (cases v; simp)+
  then show "resolve H (Suc n) s (PDict [(''$ref'', PStr k)]) = Inr (v, s)"
    by (simp add: resolve_ref_operator resolve_ref_def del: resolve.simps)
  from hit show "subcalls H (Suc n, s, PDict [(''$ref'', PStr k)]) = []"
    by (simp add: walker_calls_operator ref_calls_def)
next
  assume "is_None (map_of (computed s) k) \<and> k \<notin> resolving s \<and> toplevel s = PDict d \<and>
    map_of d k = Some t"
  then show "subcalls H (Suc n, s, PDict [(''$ref'', PStr k)])
        = [(n, s\<lparr>resolving := insert k (resolving s)\<rparr>, t)]"
    by (simp add: walker_calls_operator ref_calls_def)
next
  assume res: "resolve H (Suc n) s (PDict [(''$ref'', PStr k)]) = Inr (r, s')"
  then have r: "resolve_ref (resolve H n) s (PStr k) = Inr (r, s')"
    by (simp only: resolve_ref_operator)
  show "map_of (computed s') k = Some r"
  proof (cases "is_None (map_of (computed s) k)")
    case True
    with r show ?thesis
      by (auto simp: resolve_ref_def Let_def split: if_splits sum.splits prod.splits)
  next
    case False
    then obtain w where "map_of (computed s) k = Some w"
      by (cases "map_of (computed s) k") simp_all
    with False r show ?thesis by (simp add: resolve_ref_def)
  qed
  assume "is_None (map_of (computed s) k)"
  with res show "stores k (computed s') = r # stores k (computed s)"
    by (rule resolve_ref_miss_stores)
next
  assume a: "resolve H n s v0 = Inr (r0, s0) \<and> stored_once (computed s)"
  then have "extends s s0" by (blast intro: extends_resolve)
  with a show so: "stored_once (computed s0)" by (simp add: extends_def)
  fix key
  from so show "length (filter (\<lambda>w. w \<noteq> PNone) (stores key (computed s0))) \<le> 1"
    by (rule stored_once_count)
  fix w
  assume "map_of (computed s0) key = Some w \<and> w \<noteq> PNone"
  with so show "filter (\<lambda>w. w \<noteq> PNone) (stores key (computed s0)) = [w]"
    by (blast intro: stored_once_cached)
next
  assume a: "resolve H (Suc n) s (PDict d) = Inr (r1, s1) \<and> \<not> operator_node (PDict d)"
  then obtain vs where "resolve_each (resolve H n) s (map snd d) = Inr (vs, s1)"
    by (auto simp: resolve_plain_node is_list_like_def simp del: resolve.simps
        split: sum.splits prod.splits)
  then have "map snd (each_calls (resolve H n) s (map snd d)) = map snd d"
    by (rule each_calls_returned)
  with a show "map (\<lambda>c. snd (snd c)) (subcalls H (Suc n, s, PDict d)) = map snd d"
    by (simp add: walker_calls_plain is_list_like_def comp_def)
qed

theorem ref_memoized_unless_None_witness:
  "resolve example_host (Suc 4) (example_state memo_template []) memo_template
     = Inr (PDict [(''a'', PList [PInt 5, PInt 5]), (''b'', PInt 5), (''c'', PInt 5)],
            (example_state memo_template [])\<lparr>computed := [(''b'', PInt 5), (''c'', PInt 5)]\<rparr>) \<and>
   filter (\<lambda>w. w \<noteq> PNone) (stores ''c'' [(''b'', PInt 5), (''c'', PInt 5)]) = [PInt 5] \<and>
   filter (\<lambda>w. w \<noteq> PNone) (stores ''b'' [(''b'', PInt 5), (''c'', PInt 5)]) = [PInt 5] \<and>
   map (\<lambda>c. snd (snd c)) (subcalls example_host (Suc 4, example_state memo_template [], memo_template))
     = [PList [PDict [(''$ref'', PStr ''b'')], PDict [(''$ref'', PStr ''b'')]],
        PDict [(''$ref'', PStr ''c'')], PInt 5] \<and>
   subcalls example_host
     (Suc 0, (example_state memo_template [])\<lparr>computed := [(''b'', PInt 5), (''c'', PInt 5)]\<rparr>,
      PDict [(''$ref'', PStr ''c'')]) = []"
proof -
  let ?s = "example_state memo_template []"
  let ?s' = "?s\<lparr>computed := [(''b'', PInt 5), (''c'', PInt 5)]\<rparr>"
  let ?r = "PDict [(''a'', PList [PInt 5, PInt 5]), (''b'', PInt 5), (''c'', PInt 5)]"
  let ?d = "[(''a'', PList [PDict [(''$ref'', PStr ''b'')], PDict [(''$ref'', PStr ''b'')]]),
             (''b'', PDict [(''$ref'', PStr ''c'')]), (''c'', PInt 5)]"
  have t: "memo_template = PDict ?d"
    by (simp add: memo_template_def)
  have a: "resolve example_host (Suc 4) ?s memo_template = Inr (?r, ?s')"
    by code_simp
  have b: "stored_once (computed ?s)"
    by (simp add: example_state_def)
  have c: "\<not> operator_node (PDict ?d)"
    by simp
  have d: "map_of (computed ?s') ''c'' = Some (PInt 5) \<and> PInt 5 \<noteq> PNone"
    by (simp add: example_state_def)
  note inst = ref_memoized_unless_None [where H = example_host and n = 4 and s = ?s
      and ?v0.0 = memo_template and ?r0.0 = ?r and ?s0.0 = ?s' and d = ?d and ?r1.0 = ?r
      and ?s1.0 = ?s']
  note history = ref_memoized_unless_None [where H = example_host and n = "Suc 4" and s = ?s
      and ?v0.0 = memo_template and ?r0.0 = ?r and ?s0.0 = ?s',
      THEN conjunct2, THEN conjunct2, THEN conjunct2, THEN conjunct1, THEN mp]
  note pass = inst [THEN conjunct2, THEN conjunct2, THEN conjunct2, THEN conjunct2, THEN mp]
  have "stored_once (computed ?s') \<and>
      (\<forall>key. length (filter (\<lambda>w. w \<noteq> PNone) (stores key (computed ?s'))) \<le> 1) \<and>
      (\<forall>key w. map_of (computed ?s') key = Some w \<and> w \<noteq> PNone \<longrightarrow>
                  filter (\<lambda>w. w \<noteq> PNone) (stores key (computed ?s')) = [w])"
    by (rule history) (intro conjI a b)
  then have once: "\<forall>key w. map_of (computed ?s') key = Some w \<and> w \<noteq> PNone \<longrightarrow>
                  filter (\<lambda>w. w \<noteq> PNone) (stores key (computed ?s')) = [w]"
    by (elim conjE)
  have 1: "filter (\<lambda>w. w \<noteq> PNone) (stores ''c'' [(''b'', PInt 5), (''c'', PInt 5)]) = [PInt 5]"
    using once [rule_format, of "''c''" "PInt 5"] by (simp add: example_state_def)
  have 2: "filter (\<lambda>w. w \<noteq> PNone) (stores ''b'' [(''b'', PInt 5), (''c'', PInt 5)]) = [PInt 5]"
    using once [rule_format, of "''b''" "PInt 5"] by (simp add: example_state_def)
  have a': "resolve example_host (Suc 4) ?s (PDict ?d) = Inr (?r, ?s')"
    using a by (simp only: t)
  have 3: "map (\<lambda>c. snd (snd c)) (subcalls example_host (Suc 4, ?s, PDict ?d)) = map snd ?d"
    by (rule pass) (intro conjI a' c)
  note hit = ref_memoized_unless_None [where H = example_host and n = 0 and s = ?s'
      and k = "''c''" and v = "PInt 5", THEN conjunct1, THEN mp, OF d, THEN conjunct2]
  have 4: "subcalls example_host (Suc 0, ?s', PDict [(''$ref'', PStr ''c'')]) = []"
    by (rule hit)
  have 5: "map (\<lambda>c. snd (snd c)) (subcalls example_host (Suc 4, ?s, memo_template))
      = [PList [PDict [(''$ref'', PStr ''b'')], PDict [(''$ref'', PStr ''b'')]],
         PDict [(''$ref'', PStr ''c'')], PInt 5]"
    using 3 by (simp only: t list.map snd_conv)
  show ?thesis
    by (intro conjI) (rule a 1 2 5 4)+
qed

text \<open>
  All calls of the build of the template \<open>{a: [{$ref: b}, {$ref: b}], b: {$ref: c}, c: 5}\<close>,
  by the values they are made on: the entries of \<open>b\<close> and \<open>c\<close> are each walked twice, once
  for the first reference to the key and once by the pass over the toplevel mapping.
\<close>

lemma memo_template_calls:
  "map (\<lambda>c. snd (snd c))
     (calls example_host (Suc 4, example_state memo_template [], memo_template))
   = [memo_template,
      PList [PDict [(''$ref'', PStr ''b'')], PDict [(''$ref'', PStr ''b'')]],
      PDict [(''$ref'', PStr ''b'')], PDict [(''$ref'', PStr ''c'')], PInt 5,
      PDict [(''$ref'', PStr ''b'')],
      PDict [(''$ref'', PStr ''c'')],
      PInt 5]"
  by code_simp

end
